theory Spec2Isabelle
  imports Complex_Main "HOL-Library.Sublist" "HOL-Library.Log_Nat"
begin

section \<open>Strings\<close>

text \<open>
  A JavaScript string is a sequence of UTF-16 code units. The model uses \<^typ>\<open>string\<close>:
  one \<^typ>\<open>char\<close> per code unit, restricted to the code units below 256.
  \<open>length\<close> is the \<open>.length\<close> property.
\<close>

abbreviation newline :: char where
  "newline \<equiv> CHR 0x0A"

abbreviation dollar :: char where
  "dollar \<equiv> CHR ''$''"

abbreviation backslash :: char where
  "backslash \<equiv> CHR 0x5C"

text \<open>
  The characters that \<open>\s\<close> in a regular expression and \<open>String.prototype.trim\<close>
  treat as white space, among the code units below 256: TAB, LF, VT, FF, CR, SPACE and
  NO-BREAK SPACE.
\<close>

definition isSpace :: "char \<Rightarrow> bool" where
  "isSpace c = (c = CHR 0x09 \<or> c = CHR 0x0A \<or> c = CHR 0x0B \<or> c = CHR 0x0C
     \<or> c = CHR 0x0D \<or> c = CHR 0x20 \<or> c = CHR 0xA0)"

definition trimStart :: "string \<Rightarrow> string" where
  "trimStart s = dropWhile isSpace s"

definition trimEnd :: "string \<Rightarrow> string" where
  "trimEnd s = rev (dropWhile isSpace (rev s))"

definition trim :: "string \<Rightarrow> string" where
  "trim s = trimEnd (trimStart s)"

text \<open>\<open>haystack.includes(needle)\<close>: the needle occurs as a contiguous substring.\<close>

fun str_includes :: "string \<Rightarrow> string \<Rightarrow> bool" where
  "str_includes [] needle = (needle = [])"
| "str_includes (c # cs) needle = (prefix needle (c # cs) \<or> str_includes cs needle)"

text \<open>\<open>lines.join("\n")\<close>.\<close>

fun joinLines :: "string list \<Rightarrow> string" where
  "joinLines [] = []"
| "joinLines [l] = l"
| "joinLines (l # m # ls) = l @ [newline] @ joinLines (m # ls)"

section \<open>The \<open>/api/ai\<close> route\<close>

text \<open>
  The request body is whatever JSON the client sent. \<open>JUndefined\<close> is not a JSON
  value: it is what reading an absent property yields. The numbers are kept abstract
  (type \<open>'n\<close>); the operations of JavaScript on them that the route uses are the fields
  of \<open>numops\<close>.
\<close>

datatype 'n jsval =
    JUndefined
  | JNull
  | JBool bool
  | JNum 'n
  | JStr string
  | JArr "'n jsval list"
  | JObj "(string \<times> 'n jsval) list"

record 'n numops =
  num_of_nat :: "nat \<Rightarrow> 'n"
  num_add :: "'n \<Rightarrow> 'n \<Rightarrow> 'n"
  num_coerce :: "'n jsval \<Rightarrow> 'n"
  num_show :: "'n \<Rightarrow> string"
  val_show :: "'n jsval \<Rightarrow> string"

text \<open>
  \<open>v?.name\<close> for the property names the route reads. \<open>JSON.parse\<close> keeps the last
  binding of a repeated key, so the lookup runs over the reversed bindings. A string and
  an array have a \<open>length\<close>; every other property the route asks of a value that is
  not an object is \<open>undefined\<close>.
\<close>

fun getProp :: "'n numops \<Rightarrow> 'n jsval \<Rightarrow> string \<Rightarrow> 'n jsval" where
  "getProp ops (JObj kvs) name =
     (case map_of (rev kvs) name of None \<Rightarrow> JUndefined | Some v \<Rightarrow> v)"
| "getProp ops (JStr s) name =
     (if name = ''length'' then JNum (num_of_nat ops (length s)) else JUndefined)"
| "getProp ops (JArr vs) name =
     (if name = ''length'' then JNum (num_of_nat ops (length vs)) else JUndefined)"
| "getProp ops v name = JUndefined"

text \<open>\<open>a ?? b\<close>: \<open>b\<close> when \<open>a\<close> is \<open>null\<close> or \<open>undefined\<close>.\<close>

fun nullish :: "'n jsval \<Rightarrow> 'n jsval \<Rightarrow> 'n jsval" where
  "nullish JUndefined d = d"
| "nullish JNull d = d"
| "nullish v d = v"

text \<open>\<open>Number(v)\<close>: a number is returned as it is; every other value is coerced.\<close>

fun Number_js :: "'n numops \<Rightarrow> 'n jsval \<Rightarrow> 'n" where
  "Number_js ops (JNum n) = n"
| "Number_js ops v = num_coerce ops v"

text \<open>\<open>typeof v !== "string"\<close>.\<close>

fun notString :: "'n jsval \<Rightarrow> bool" where
  "notString (JStr s) = False"
| "notString v = True"

fun stringOf :: "'n jsval \<Rightarrow> string" where
  "stringOf (JStr s) = s"
| "stringOf v = []"

text \<open>
  An element of the array that \<open>join\<close> concatenates: a string as it is, \<open>null\<close> and
  \<open>undefined\<close> as the empty string, a number by \<open>num_show\<close>, anything else by
  \<open>val_show\<close>.
\<close>

fun joined :: "'n numops \<Rightarrow> 'n jsval \<Rightarrow> string" where
  "joined ops (JStr s) = s"
| "joined ops JUndefined = []"
| "joined ops JNull = []"
| "joined ops (JNum n) = num_show ops n"
| "joined ops v = val_show ops v"

record 'n selection_fields =
  sel_start :: 'n
  sel_end :: 'n
  sel_length :: 'n
  sel_percent :: 'n
  sel_contextBefore :: string
  sel_contextAfter :: string

text \<open>
  Lines 54 to 64 of the route: the position metadata read from \<open>selection\<close>, each
  field with its default.
\<close>

definition resolveSelection ::
  "'n numops \<Rightarrow> 'n jsval \<Rightarrow> string \<Rightarrow> 'n selection_fields" where
  "resolveSelection ops selection selectedText =
     (let start = Number_js ops
            (nullish (getProp ops selection ''start'') (JNum (num_of_nat ops 0)));
          end = Number_js ops
            (nullish (getProp ops selection ''end'')
               (JNum (num_add ops start (num_of_nat ops (length selectedText)))));
          len = Number_js ops
            (nullish (getProp ops selection ''length'')
               (JNum (num_of_nat ops (length selectedText))));
          percent =
            (case getProp ops selection ''percentThroughDocument'' of
               JNum p \<Rightarrow> p
             | _ \<Rightarrow> num_of_nat ops 0);
          contextBefore =
            (case getProp ops selection ''contextBefore'' of JStr c \<Rightarrow> c | _ \<Rightarrow> []);
          contextAfter =
            (case getProp ops selection ''contextAfter'' of JStr c \<Rightarrow> c | _ \<Rightarrow> [])
      in \<lparr> sel_start = start, sel_end = end, sel_length = len, sel_percent = percent,
           sel_contextBefore = contextBefore, sel_contextAfter = contextAfter \<rparr>)"

text \<open>Lines 66 to 91: the prompt handed to the model.\<close>

definition buildPrompt ::
  "'n numops \<Rightarrow> string \<Rightarrow> string \<Rightarrow> 'n selection_fields \<Rightarrow> 'n jsval \<Rightarrow> string \<Rightarrow> string"
  where
  "buildPrompt ops userPrompt selectedText sel documentMarkdown documentText =
     joinLines
       [''You are editing a markdown document. Replace the selected span with the best possible rewrite.'',
        ''Return only the replacement text. Do not wrap it in code fences or add commentary.'',
        [],
        ''User prompt: '' @ userPrompt,
        [],
        ''Selected text:'',
        selectedText,
        [],
        ''Position metadata:'',
        ''start: '' @ num_show ops (sel_start sel) @ '', end: '' @ num_show ops (sel_end sel)
          @ '', length: '' @ num_show ops (sel_length sel)
          @ '', percentThroughDocument: '' @ num_show ops (sel_percent sel),
        [],
        ''Prefix context:'',
        sel_contextBefore sel,
        [],
        ''Suffix context:'',
        sel_contextAfter sel,
        [],
        ''Document markdown (for context only):'',
        joined ops (nullish documentMarkdown (JStr [])),
        [],
        ''Document plain text (for context only, do not echo back):'',
        documentText,
        [],
        ''Preserve inline markdown styles such as **bold**, _italic_, and <u>underline</u> when relevant.'']"

text \<open>
  What \<open>client.responses.parse\<close> does with the prompt: it throws, or it returns a
  response with a status and the parsed output, which is \<open>null\<close> (\<open>None\<close>) or an object
  whose \<open>replacementText\<close> may be absent.
\<close>

record ai_response =
  ai_status :: string
  output_parsed :: "string option option"

datatype ai_call = Throws | Returns ai_response

datatype 'n request_json = InvalidJson | Body "'n jsval"

datatype response_body = ReplacementText string | ErrorMessage string

record http_response =
  status_code :: nat
  resp_body :: response_body

definition jsonResponse :: "response_body \<Rightarrow> nat \<Rightarrow> http_response" where
  "jsonResponse b st = \<lparr> status_code = st, resp_body = b \<rparr>"

text \<open>\<open>response.ok\<close>: the status is in the range 200 to 299.\<close>

definition response_ok :: "http_response \<Rightarrow> bool" where
  "response_ok r = (200 \<le> status_code r \<and> status_code r \<le> 299)"

text \<open>
  Lines 93 to 140: the call of the model inside \<open>try\<close>; every \<open>throw\<close> and every
  exception of the client ends in the \<open>catch\<close>, which answers 500.
\<close>

definition aiFailed :: http_response where
  "aiFailed = jsonResponse (ErrorMessage ''AI request failed. Please try again.'') 500"

definition answerFrom :: "ai_call \<Rightarrow> http_response" where
  "answerFrom call =
     (case call of
        Throws \<Rightarrow> aiFailed
      | Returns response \<Rightarrow>
          if ai_status response = ''incomplete'' then aiFailed
          else (case output_parsed response of
                  None \<Rightarrow> aiFailed
                | Some None \<Rightarrow> aiFailed
                | Some (Some replacementText) \<Rightarrow>
                    if replacementText = [] then aiFailed
                    else jsonResponse (ReplacementText (trim replacementText)) 200))"

text \<open>
  \<open>POST\<close>: \<open>apiKey\<close> says whether \<open>OPENAI_API_KEY\<close> is set, \<open>request\<close> is the
  outcome of \<open>request.json()\<close>, \<open>ai\<close> is the model behind the client.
\<close>

definition POST ::
  "'n numops \<Rightarrow> bool \<Rightarrow> 'n request_json \<Rightarrow> (string \<Rightarrow> ai_call) \<Rightarrow> http_response" where
  "POST ops apiKey request ai =
     (if \<not> apiKey then jsonResponse (ErrorMessage ''OPENAI_API_KEY is not configured.'') 500
      else (case request of
        InvalidJson \<Rightarrow> jsonResponse (ErrorMessage ''Invalid JSON body.'') 400
      | Body parsed \<Rightarrow>
          (let b = nullish parsed (JObj []);
               documentText = getProp ops b ''documentText'';
               documentMarkdown = getProp ops b ''documentMarkdown'';
               selectedText = getProp ops b ''selectedText'';
               userPrompt = getProp ops b ''userPrompt'';
               selection = getProp ops b ''selection''
           in if notString documentText \<or> notString selectedText \<or> notString userPrompt
              then jsonResponse
                (ErrorMessage ''documentText, selectedText, and userPrompt are required.'') 400
              else answerFrom
                (ai (buildPrompt ops (stringOf userPrompt) (stringOf selectedText)
                       (resolveSelection ops selection (stringOf selectedText))
                       documentMarkdown (stringOf documentText))))))"

section \<open>Numbers of the page\<close>

text \<open>
  A JavaScript number is a binary64 floating-point value; the model keeps its exact
  value as a rational. \<open>binary64 q\<close> is the value nearest to \<open>q\<close> with a 53-bit
  significand, a tie going to the even significand. The exponent range is not modelled:
  the page only divides one string length by another.
\<close>

definition ilog2 :: "rat \<Rightarrow> int" where
  "ilog2 q =
     (let (a, b) = quotient_of q;
          d = int (floorlog 2 (nat a)) - int (floorlog 2 (nat b))
      in if 2 powi d \<le> q then d else d - 1)"

definition roundHalfEven :: "rat \<Rightarrow> int" where
  "roundHalfEven r =
     (let f = \<lfloor>r\<rfloor>; d = r - of_int f
      in if d < 1 / 2 then f else if 1 / 2 < d then f + 1 else if even f then f else f + 1)"

definition binary64 :: "rat \<Rightarrow> rat" where
  "binary64 q =
     (if q = 0 then 0
      else (let e = ilog2 \<bar>q\<bar>; m = roundHalfEven (\<bar>q\<bar> * 2 powi (52 - e))
            in sgn q * of_int m * 2 powi (e - 52)))"

text \<open>\<open>a / b\<close> on two string lengths.\<close>

definition js_div :: "nat \<Rightarrow> nat \<Rightarrow> rat" where
  "js_div a b = binary64 (of_nat a / of_nat b)"

text \<open>
  \<open>x.toFixed(3)\<close> for \<open>x \<ge> 0\<close>: the decimal string of \<open>n / 1000\<close> with three digits after
  the point, where \<open>n\<close> is the integer for which \<open>n / 1000 - x\<close> is closest to zero, the
  larger one if there are two. The string is represented by \<open>n\<close>.
\<close>

definition toFixed3 :: "rat \<Rightarrow> int" where
  "toFixed3 x = \<lfloor>x * 1000 + 1 / 2\<rfloor>"

text \<open>\<open>Number(s)\<close> for the string that \<open>toFixed3\<close> stands for.\<close>

definition Number_of_fixed3 :: "int \<Rightarrow> rat" where
  "Number_of_fixed3 n = binary64 (of_int n / 1000)"

section \<open>The browser and the libraries\<close>

text \<open>
  The page runs against the DOM, \<open>marked\<close>, \<open>katex\<close> and \<open>turndown\<close>. None of them is
  code of the page, so each is a parameter. The content of the editor element is
  identified with its \<open>innerHTML\<close>; a \<open>Range\<close> is a value of the type \<open>'r\<close>.
  \<^item> \<open>innerText h\<close>: \<open>editorRef.current.innerText\<close> when the content is \<open>h\<close>;
  \<^item> \<open>textBefore h r\<close>: \<open>beforeRange.toString()\<close> of lines 266 to 269, the text from the
    start of the editor to the start of \<open>r\<close>;
  \<^item> \<open>rangeText h r\<close>: \<open>r.toString()\<close>;
  \<^item> \<open>inEditor h r\<close>: \<open>editorRef.current.contains(r.commonAncestorContainer)\<close>;
  \<^item> \<open>collapsed r\<close>: \<open>selection.isCollapsed\<close> when \<open>r\<close> is the selected range;
  \<^item> \<open>insertHTML h r f\<close>: the content after \<open>document.execCommand("insertHTML", false, f)\<close>
    with \<open>r\<close> as the live selection;
  \<^item> \<open>marked_parse\<close>: \<open>marked.parse\<close> under the options of lines 66 to 69;
  \<^item> \<open>katex_render e d\<close>: \<open>katex.renderToString(e, {throwOnError: false, displayMode: d})\<close>,
    \<open>None\<close> when the call throws;
  \<^item> \<open>turndown\<close>: \<open>turndownService.turndown\<close>.
\<close>

record 'r browser =
  innerText :: "string \<Rightarrow> string"
  textBefore :: "string \<Rightarrow> 'r \<Rightarrow> string"
  rangeText :: "string \<Rightarrow> 'r \<Rightarrow> string"
  inEditor :: "string \<Rightarrow> 'r \<Rightarrow> bool"
  collapsed :: "'r \<Rightarrow> bool"
  insertHTML :: "string \<Rightarrow> 'r \<Rightarrow> string \<Rightarrow> string"
  marked_parse :: "string \<Rightarrow> string"
  katex_render :: "string \<Rightarrow> bool \<Rightarrow> string option"
  turndown :: "string \<Rightarrow> string"

section \<open>The Math Expositor: \<open>renderMath\<close>\<close>

text \<open>
  \<open>html.replace(re, f)\<close> with a global regular expression looks for the leftmost match
  from the end of the previous one, and puts the text between the matches and the
  values of \<open>f\<close> together. A scan gives the pieces: the text kept (\<open>Plain\<close>) and the
  expression captured by each match (\<open>Span\<close>).
\<close>

datatype segment = Plain string | Span string

text \<open>
  \<open>/\$\$([\s\S]+?)\$\$/\<close>. \<open>untilDollars s\<close> is the shortest prefix of \<open>s\<close> that two
  dollars follow, with what comes after them. \<open>matchBlock s\<close> is the match that starts at
  the head of \<open>s\<close>: two dollars, the shortest expression of at least one character, two
  dollars; it gives the expression and the text after the match.
\<close>

fun untilDollars :: "string \<Rightarrow> (string \<times> string) option" where
  "untilDollars (c # d # s) =
     (if c = dollar \<and> d = dollar then Some ([], s)
      else map_option (\<lambda>(p, r). (c # p, r)) (untilDollars (d # s)))"
| "untilDollars s = None"

fun matchBlock :: "string \<Rightarrow> (string \<times> string) option" where
  "matchBlock (c # d # x # s) =
     (if c = dollar \<and> d = dollar
      then map_option (\<lambda>(p, r). (x # p, r)) (untilDollars s) else None)"
| "matchBlock s = None"

text \<open>The text before the leftmost match, and the match if there is one.\<close>

fun nextBlock :: "string \<Rightarrow> string \<times> (string \<times> string) option" where
  "nextBlock [] = ([], None)"
| "nextBlock (c # s) =
     (case matchBlock (c # s) of
        Some m \<Rightarrow> ([], Some m)
      | None \<Rightarrow> (case nextBlock s of (pre, m) \<Rightarrow> (c # pre, m)))"

text \<open>
  \<open>/(^|[^\\])\$([^\$\n]+?)\$/\<close>. \<open>dollarSpan s\<close> is \<open>\$([^\$\n]+?)\$\<close> at the head of
  \<open>s\<close>: a dollar, the characters up to the next dollar, which are at least one and none
  of them a newline, and that dollar. \<open>matchInline atStart s\<close> is the match that starts at
  the head of \<open>s\<close>, with the prefix, the expression and the text after the match: the
  prefix is empty (\<open>^\<close>, tried first, possible at index 0 of the input only) or one
  character other than a backslash.
\<close>

fun dollarSpan :: "string \<Rightarrow> (string \<times> string) option" where
  "dollarSpan [] = None"
| "dollarSpan (c # s) =
     (let expr = takeWhile (\<lambda>x. x \<noteq> dollar) s; rest = dropWhile (\<lambda>x. x \<noteq> dollar) s
      in if c = dollar \<and> expr \<noteq> [] \<and> rest \<noteq> [] \<and> newline \<notin> set expr
         then Some (expr, tl rest) else None)"

definition matchInline :: "bool \<Rightarrow> string \<Rightarrow> (string \<times> string \<times> string) option" where
  "matchInline atStart s =
     (case (if atStart then dollarSpan s else None) of
        Some (expr, rest) \<Rightarrow> Some ([], expr, rest)
      | None \<Rightarrow>
          (case s of
             [] \<Rightarrow> None
           | c # s' \<Rightarrow>
               if c \<noteq> backslash
               then map_option (\<lambda>(expr, rest). ([c], expr, rest)) (dollarSpan s')
               else None))"

fun nextInline :: "bool \<Rightarrow> string \<Rightarrow> string \<times> (string \<times> string) option" where
  "nextInline atStart [] = ([], None)"
| "nextInline atStart (c # s) =
     (case matchInline atStart (c # s) of
        Some (pfx, expr, rest) \<Rightarrow> (pfx, Some (expr, rest))
      | None \<Rightarrow> (case nextInline False s of (pre, m) \<Rightarrow> (c # pre, m)))"

text \<open>
  The pieces of the whole input: the text up to the leftmost match, its expression, and
  the pieces of what follows the match. After the first match the scan is no longer at
  index 0.
\<close>

function scanBlock :: "string \<Rightarrow> segment list" where
  "scanBlock s =
     (case snd (nextBlock s) of
        None \<Rightarrow> [Plain (fst (nextBlock s))]
      | Some m \<Rightarrow> Plain (fst (nextBlock s)) # Span (fst m) # scanBlock (snd m))"
  by pat_completeness auto

termination scanBlock
proof (relation "measure length")
  show "wf (measure length)" by simp
next
  fix s :: string and m :: "string \<times> string"
  assume found: "snd (nextBlock s) = Some m"
  have closing: "length r < length t" if "untilDollars t = Some (p, r)" for t p r
    using that
    by (induction t arbitrary: p r rule: untilDollars.induct) (auto split: if_splits)
  have matched: "length r < length t" if "matchBlock t = Some (e, r)" for t e r
    using that
    by (induction t rule: matchBlock.induct) (auto split: if_splits dest!: closing)
  have "length (snd m') < length t" if "snd (nextBlock t) = Some m'" for t m'
    using that
  proof (induction t)
    case Nil
    then show ?case by simp
  next
    case (Cons c t)
    show ?case
    proof (cases "matchBlock (c # t)")
      case None
      with Cons show ?thesis by (auto split: prod.splits)
    next
      case (Some a)
      with Cons.prems have "a = m'" by simp
      with Some show ?thesis using matched [of "c # t" "fst m'" "snd m'"] by simp
    qed
  qed
  from this [OF found] show "(snd m, s) \<in> measure length" by simp
qed

function scanInline :: "bool \<Rightarrow> string \<Rightarrow> segment list" where
  "scanInline atStart s =
     (case snd (nextInline atStart s) of
        None \<Rightarrow> [Plain (fst (nextInline atStart s))]
      | Some m \<Rightarrow> Plain (fst (nextInline atStart s)) # Span (fst m) # scanInline False (snd m))"
  by pat_completeness auto

termination scanInline
proof (relation "measure (\<lambda>(atStart, s). length s)")
  show "wf (measure (\<lambda>(atStart, s). length s))" by simp
next
  fix atStart :: bool and s :: string and m :: "string \<times> string"
  assume found: "snd (nextInline atStart s) = Some m"
  have span: "length r < length t" if "dollarSpan t = Some (e, r)" for t e r
  proof (cases t)
    case Nil
    with that show ?thesis by simp
  next
    case (Cons c t')
    with that have "r = tl (dropWhile (\<lambda>x. x \<noteq> dollar) t')"
      by (auto simp: Let_def split: if_splits)
    moreover have "length (dropWhile (\<lambda>x. x \<noteq> dollar) t') \<le> length t'"
      by (rule length_dropWhile_le)
    ultimately show ?thesis using Cons by simp
  qed
  have matched: "length r < length t" if "matchInline b t = Some (p, e, r)" for b t p e r
  proof (cases "b \<and> dollarSpan t \<noteq> None")
    case True
    with that have "dollarSpan t = Some (e, r)" by (auto simp: matchInline_def)
    then show ?thesis by (rule span)
  next
    case False
    with that obtain c t' where "t = c # t'" and "dollarSpan t' = Some (e, r)"
      by (cases t) (auto simp: matchInline_def split: if_splits option.splits)
    with span [of t' e r] show ?thesis by simp
  qed
  have "length (snd m') < length t" if "snd (nextInline b t) = Some m'" for b t m'
    using that
  proof (induction t arbitrary: b)
    case Nil
    then show ?case by simp
  next
    case (Cons c t)
    show ?case
    proof (cases "matchInline b (c # t)")
      case None
      with Cons.prems have "snd (nextInline False t) = Some m'" by (auto split: prod.splits)
      from Cons.IH [OF this] show ?thesis by simp
    next
      case (Some a)
      obtain p e r where a: "a = (p, e, r)" by (cases a)
      with Some Cons.prems have "m' = (e, r)" by simp
      with Some a show ?thesis using matched [of b "c # t" p e r] by simp
    qed
  qed
  from this [OF found] show "((False, snd m), atStart, s) \<in> measure (\<lambda>(atStart, s). length s)"
    by simp
qed

declare scanBlock.simps [simp del]
declare scanInline.simps [simp del]

text \<open>
  The text of the input that a piece stands for, \<open>d\<close> being the delimiter; and what a
  piece becomes when the callback \<open>f\<close> returns for it.
\<close>

fun sourceOf :: "string \<Rightarrow> segment \<Rightarrow> string" where
  "sourceOf d (Plain t) = t"
| "sourceOf d (Span e) = d @ e @ d"

fun shown :: "(string \<Rightarrow> string option) \<Rightarrow> segment \<Rightarrow> string" where
  "shown f (Plain t) = t"
| "shown f (Span e) = (case f e of None \<Rightarrow> [] | Some m \<Rightarrow> m)"

text \<open>
  The replacement: a \<open>Plain\<close> piece stays, a \<open>Span\<close> piece becomes what the callback
  returns. A callback that throws ends the whole \<open>replace\<close>.
\<close>

fun renderSegments :: "(string \<Rightarrow> string option) \<Rightarrow> segment list \<Rightarrow> string option" where
  "renderSegments f [] = Some []"
| "renderSegments f (Plain t # segs) = map_option (\<lambda>r. t @ r) (renderSegments f segs)"
| "renderSegments f (Span e # segs) =
     (case f e of
        None \<Rightarrow> None
      | Some m \<Rightarrow> map_option (\<lambda>r. m @ r) (renderSegments f segs))"

definition blockMarkup :: "('r, 'z) browser_scheme \<Rightarrow> string \<Rightarrow> string option" where
  \<open>blockMarkup env expr =
     map_option (\<lambda>k. ''<div class="math-block">'' @ k @ ''</div>'')
       (katex_render env (trim expr) True)\<close>

definition inlineMarkup :: "('r, 'z) browser_scheme \<Rightarrow> string \<Rightarrow> string option" where
  \<open>inlineMarkup env expr =
     map_option (\<lambda>k. ''<span class="math-inline">'' @ k @ ''</span>'')
       (katex_render env (trim expr) False)\<close>

text \<open>Lines 113 to 140. The \<open>catch\<close> returns the input.\<close>

definition renderMath :: "('r, 'z) browser_scheme \<Rightarrow> string \<Rightarrow> string" where
  "renderMath env html =
     (case renderSegments (blockMarkup env) (scanBlock html) of
        None \<Rightarrow> html
      | Some block \<Rightarrow>
          (case renderSegments (inlineMarkup env) (scanInline True block) of
             None \<Rightarrow> html
           | Some r \<Rightarrow> r))"

section \<open>The Inline/Block Classifier: \<open>toInlineAwareHtml\<close>\<close>

text \<open>
  \<open>html.match(/^<p>([\s\S]*)<\/p>\s*$/)\<close>: the input is \<open><p>\<close>, the captured text,
  \<open></p>\<close> and white space to the end. The closing tag ends in a character that is not
  white space, so it is the end of the input without its trailing white space.
\<close>

definition unwrapParagraph :: "string \<Rightarrow> string option" where
  "unwrapParagraph html =
     (let h = trimEnd html
      in if prefix ''<p>'' h \<and> suffix ''</p>'' h \<and> 7 \<le> length h
         then Some (take (length h - 7) (drop 3 h)) else None)"

text \<open>\<open>s.replace(/\n+/g, " ")\<close>: one space for each run of newlines.\<close>

fun collapseNewlines :: "string \<Rightarrow> string" where
  "collapseNewlines [] = []"
| "collapseNewlines [c] = (if c = newline then '' '' else [c])"
| "collapseNewlines (c # d # s) =
     (if c = newline then (if d = newline then collapseNewlines (d # s)
                           else CHR '' '' # collapseNewlines (d # s))
      else c # collapseNewlines (d # s))"

text \<open>Lines 179 to 193.\<close>

definition toInlineAwareHtml :: "('r, 'z) browser_scheme \<Rightarrow> string \<Rightarrow> string" where
  "toInlineAwareHtml env text =
     (let trimmed = trim text;
          html = marked_parse env trimmed;
          html' = (if \<not> str_includes trimmed [newline, newline]
                   then (case unwrapParagraph html of
                           Some inner \<Rightarrow> collapseNewlines inner
                         | None \<Rightarrow> html)
                   else html)
      in renderMath env html')"

section \<open>The Selection Locator: \<open>getSelectionMeta\<close>\<close>

record SelectionMeta =
  meta_start :: nat
  meta_end :: nat
  meta_length :: nat
  percentThroughDocument :: rat
  contextBefore :: string
  contextAfter :: string

text \<open>\<open>s.slice(from, to)\<close> for two indices that are not negative.\<close>

definition slice :: "string \<Rightarrow> nat \<Rightarrow> nat \<Rightarrow> string" where
  "slice s from to = take (to - from) (drop from s)"

text \<open>
  Lines 253 to 287. \<open>editor\<close> is \<open>editorRef.current\<close>: \<open>None\<close> when the element is not
  mounted, else its content.
\<close>

definition getSelectionMeta ::
  "('r, 'z) browser_scheme \<Rightarrow> string option \<Rightarrow> 'r \<Rightarrow> SelectionMeta" where
  "getSelectionMeta env editor rng =
     (case editor of
        None \<Rightarrow>
          \<lparr> meta_start = 0, meta_end = 0, meta_length = 0, percentThroughDocument = 0,
            contextBefore = [], contextAfter = [] \<rparr>
      | Some h \<Rightarrow>
          (let plainText = innerText env h;
               start = length (textBefore env h rng);
               selected = rangeText env h rng;
               end = start + length selected;
               before = slice plainText (nat (max 0 (int start - 500))) start;
               after = slice plainText end (min (length plainText) (end + 500));
               percent =
                 (if length plainText = 0 then 0
                  else Number_of_fixed3 (toFixed3 (js_div end (length plainText))))
           in \<lparr> meta_start = start, meta_end = end, meta_length = length selected,
                percentThroughDocument = percent,
                contextBefore = before, contextAfter = after \<rparr>))"

section \<open>The state of the page\<close>

text \<open>
  The only action a toast of the page carries is the undo of an AI edit (lines 308 to
  314); it reads the refs when it runs.
\<close>

datatype toast_action = UndoAiEdit

record ToastState =
  message :: string
  actionLabel :: "string option"
  onAction :: "toast_action option"

record undo_snapshot =
  snap_html :: string
  snap_markdown :: string

text \<open>
  The refs and the state variables of \<open>Home\<close> that the edit session touches. The
  position of the toolbar, the theme, the file handle and the dirty flag are left out.
\<close>

record 'r page =
  editorRef :: "string option"
  selectionRangeRef :: "'r option"
  aiUndoRef :: "undo_snapshot option"
  markdown :: string
  toolbarVisible :: bool
  aiPrompt :: string
  aiOpen :: bool
  aiLoading :: bool
  toast :: "ToastState option"

definition notice :: "string \<Rightarrow> ToastState" where
  "notice m = \<lparr> message = m, actionLabel = None, onAction = None \<rparr>"

definition undoToast :: ToastState where
  "undoToast = \<lparr> message = ''AI edit applied.'', actionLabel = Some ''Undo'',
     onAction = Some UndoAiEdit \<rparr>"

definition failureToast :: ToastState where
  "failureToast = notice ''AI request failed. Try again.''"

definition noSelectionToast :: ToastState where
  "noSelectionToast = notice ''Place the cursor or select text to ask AI.''"

text \<open>Lines 156 to 161.\<close>

definition updateMarkdownFromEditor ::
  "('r, 'z) browser_scheme \<Rightarrow> 'r page \<Rightarrow> 'r page" where
  "updateMarkdownFromEditor env s =
     (case editorRef s of
        None \<Rightarrow> s
      | Some h \<Rightarrow> s\<lparr> markdown := turndown env h \<rparr>)"

text \<open>
  An \<open>input\<close> event: the user has changed the content of the editor to \<open>h\<close>, and
  \<open>handleInput\<close> (lines 163 to 165) runs.
\<close>

definition handleInput :: "('r, 'z) browser_scheme \<Rightarrow> string \<Rightarrow> 'r page \<Rightarrow> 'r page" where
  "handleInput env h s =
     (case editorRef s of
        None \<Rightarrow> s
      | Some old \<Rightarrow> updateMarkdownFromEditor env (s\<lparr> editorRef := Some h \<rparr>))"

text \<open>
  Lines 195 to 225. \<open>sel\<close> is the first range of \<open>window.getSelection()\<close>, \<open>None\<close> when
  there is no selection object or it has no range.
\<close>

definition handleSelection ::
  "('r, 'z) browser_scheme \<Rightarrow> 'r option \<Rightarrow> 'r page \<Rightarrow> 'r page" where
  "handleSelection env sel s =
     (case sel of
        None \<Rightarrow> s\<lparr> toolbarVisible := False \<rparr>
      | Some rng \<Rightarrow>
          (case editorRef s of
             None \<Rightarrow> s\<lparr> toolbarVisible := False \<rparr>
           | Some h \<Rightarrow>
               if \<not> inEditor env h rng then s\<lparr> toolbarVisible := False \<rparr>
               else if collapsed env rng
               then (if aiOpen s then s\<lparr> selectionRangeRef := Some rng \<rparr>
                     else s\<lparr> selectionRangeRef := Some rng, toolbarVisible := False \<rparr>)
               else s\<lparr> selectionRangeRef := Some rng, toolbarVisible := True \<rparr>))"


text \<open>Lines 232 to 251.\<close>

definition openAiPrompt :: "'r option \<Rightarrow> 'r page \<Rightarrow> 'r page" where
  "openAiPrompt sel s =
     (let s1 = (case selectionRangeRef s of
                  None \<Rightarrow> (case sel of
                              None \<Rightarrow> s
                            | Some rng \<Rightarrow> s\<lparr> selectionRangeRef := Some rng \<rparr>)
                | Some stored \<Rightarrow> s)
      in case selectionRangeRef s1 of
           None \<Rightarrow> s1\<lparr> toast := Some noSelectionToast \<rparr>
         | Some stored \<Rightarrow> s1\<lparr> aiOpen := True, toolbarVisible := True \<rparr>)"

section \<open>The Replacement Applicator: \<open>applyAiReplacement\<close>\<close>

text \<open>
  Lines 289 to 318. \<open>md\<close> is the variable \<open>markdown\<close> of the closure: the state of the
  render in which the callback was made. \<open>replacement\<close> is \<open>None\<close> when the argument is
  \<open>undefined\<close>; \<open>replacement || ""\<close> is then the empty string.
\<close>

definition applyAiReplacement ::
  "('r, 'z) browser_scheme \<Rightarrow> string \<Rightarrow> string option \<Rightarrow> 'r page \<Rightarrow> 'r page" where
  "applyAiReplacement env md replacement s =
     (case editorRef s of
        None \<Rightarrow> s
      | Some h \<Rightarrow>
          (case selectionRangeRef s of
             None \<Rightarrow> s
           | Some rng \<Rightarrow>
               (let fragment = toInlineAwareHtml env
                      (case replacement of None \<Rightarrow> [] | Some t \<Rightarrow> t);
                    s1 = s\<lparr> aiUndoRef := Some \<lparr> snap_html = h, snap_markdown = md \<rparr>,
                            editorRef := Some (insertHTML env h rng fragment) \<rparr>
                in (updateMarkdownFromEditor env s1)\<lparr> toast := Some undoToast \<rparr>)))"

text \<open>Lines 308 to 314, the action of the undo toast.\<close>

definition undoAiEdit :: "'r page \<Rightarrow> 'r page" where
  "undoAiEdit s =
     (case editorRef s of
        None \<Rightarrow> s
      | Some h \<Rightarrow>
          (case aiUndoRef s of
             None \<Rightarrow> s
           | Some u \<Rightarrow>
               s\<lparr> editorRef := Some (snap_html u), markdown := snap_markdown u,
                  aiUndoRef := None, toast := None \<rparr>))"

text \<open>
  A click on the button of the toast (lines 836 to 848): the button is there when the
  toast has an action and a label.
\<close>

definition clickToastAction :: "'r page \<Rightarrow> 'r page" where
  "clickToastAction s =
     (case toast s of
        None \<Rightarrow> s
      | Some t \<Rightarrow>
          (case onAction t of
             None \<Rightarrow> s
           | Some UndoAiEdit \<Rightarrow> if actionLabel t = None then s else undoAiEdit s))"

text \<open>Lines 569 to 575: the timer of a toast fires.\<close>

definition toastTimeout :: "'r page \<Rightarrow> 'r page" where
  "toastTimeout s = (case toast s of None \<Rightarrow> s | Some t \<Rightarrow> s\<lparr> toast := None \<rparr>)"

text \<open>
  Lines 577 to 587: a \<open>mousedown\<close> outside the popover while it is open. (The Escape
  key, lines 541 to 544, does the same.)
\<close>

definition clickOutsidePopover :: "'r page \<Rightarrow> 'r page" where
  "clickOutsidePopover s =
     (if aiOpen s then s\<lparr> aiOpen := False, toolbarVisible := False \<rparr> else s)"

section \<open>The Edit Session Controller: \<open>submitAi\<close>\<close>

text \<open>
  What \<open>fetch\<close> and \<open>response.json()\<close> give: the call rejects; or there is a response
  with its \<open>ok\<close> flag and a body, which cannot be read as an object (\<open>Unreadable\<close>) or is
  an object whose \<open>replacementText\<close> is absent (\<open>None\<close>) or a string, as \<open>AiResponse\<close>
  declares it.
\<close>

datatype json_body = Unreadable | Data "string option"

datatype fetch_outcome = Rejected | Responded bool json_body

text \<open>The body of the request, lines 336 to 345; each field is the key of the same name.\<close>

record ai_request =
  req_documentText :: string
  req_documentMarkdown :: string
  req_selectedText :: string
  req_userPrompt :: string
  req_selection :: SelectionMeta
  req_selectionLength :: nat

text \<open>
  \<open>submitAi\<close> (lines 320 to 362) runs in two steps, before and after the \<open>await\<close>.
  What is in flight between them is the request and the closure of the render that
  submitted it, whose \<open>applyAiReplacement\<close> holds the \<open>markdown\<close> of that render.
\<close>

record in_flight =
  request :: ai_request
  closure_markdown :: string

definition submitAi_send ::
  "('r, 'z) browser_scheme \<Rightarrow> 'r page \<Rightarrow> 'r page \<times> in_flight option" where
  "submitAi_send env s =
     (case selectionRangeRef s of
        None \<Rightarrow> (s\<lparr> aiOpen := False \<rparr>, None)
      | Some rng \<Rightarrow>
          (case editorRef s of
             None \<Rightarrow> (s\<lparr> aiOpen := False \<rparr>, None)
           | Some h \<Rightarrow>
               if trim (aiPrompt s) = [] then (s\<lparr> aiOpen := False \<rparr>, None)
               else (s\<lparr> aiLoading := True \<rparr>,
                     Some \<lparr> request =
                              \<lparr> req_documentText = innerText env h,
                                req_documentMarkdown = markdown s,
                                req_selectedText = rangeText env h rng,
                                req_userPrompt = aiPrompt s,
                                req_selection = getSelectionMeta env (Some h) rng,
                                req_selectionLength = length (rangeText env h rng) \<rparr>,
                            closure_markdown = markdown s \<rparr>)))"

definition submitAi_receive ::
  "('r, 'z) browser_scheme \<Rightarrow> in_flight \<Rightarrow> fetch_outcome \<Rightarrow> 'r page \<Rightarrow> 'r page" where
  "submitAi_receive env flight outcome s =
     (let s1 = (case outcome of
                  Rejected \<Rightarrow> s\<lparr> toast := Some failureToast \<rparr>
                | Responded ok b \<Rightarrow>
                    if \<not> ok then s\<lparr> toast := Some failureToast \<rparr>
                    else (case b of
                            Unreadable \<Rightarrow> s\<lparr> toast := Some failureToast \<rparr>
                          | Data replacementText \<Rightarrow>
                              applyAiReplacement env (closure_markdown flight)
                                replacementText s))
      in s1\<lparr> aiLoading := False, aiOpen := False, aiPrompt := [] \<rparr>)"

text \<open>The whole of \<open>submitAi\<close> when nothing else happens while the request is in flight.\<close>

definition submitAi ::
  "('r, 'z) browser_scheme \<Rightarrow> fetch_outcome \<Rightarrow> 'r page \<Rightarrow> 'r page" where
  "submitAi env outcome s =
     (case submitAi_send env s of
        (s1, None) \<Rightarrow> s1
      | (s1, Some flight) \<Rightarrow> submitAi_receive env flight outcome s1)"

section \<open>A browser of plain text\<close>

text \<open>
  An instance of the parameters, to run the page on: an editor whose content is text
  without markup, so that its \<open>innerHTML\<close>, its \<open>innerText\<close> and its markdown are one
  string. A range is a span of offsets of that text, or lies in a part of the page that
  follows the editor, such as the toast (with the text it holds; all the text of the
  editor is before it). \<open>plainMarked\<close> is what \<open>marked.parse\<close> gives under \<open>gfm\<close> and
  \<open>breaks: true\<close> for a text that is one heading line (\<open># Title\<close>) or one paragraph
  of words: the heading becomes an \<open><h1>\<close>; in the paragraph a line break of the source
  becomes a \<open><br>\<close>, and the paragraph is wrapped in \<open><p>\<close>; a newline ends either.
\<close>

datatype text_range = Within nat nat | Elsewhere string

fun breakLines :: "string \<Rightarrow> string" where
  "breakLines [] = []"
| "breakLines (c # s) = (if c = newline then ''<br>'' @ breakLines s else c # breakLines s)"

definition plainMarked :: "string \<Rightarrow> string" where
  "plainMarked t =
     (if t = [] then []
      else if prefix ''# '' t \<and> newline \<notin> set t
      then ''<h1>'' @ drop 2 t @ ''</h1>'' @ [newline]
      else ''<p>'' @ breakLines t @ ''</p>'' @ [newline])"

definition textBrowser :: "text_range browser" where
  \<open>textBrowser =
     \<lparr> innerText = (\<lambda>h. h),
       textBefore = (\<lambda>h r. case r of Within a b \<Rightarrow> take a h | Elsewhere t \<Rightarrow> h),
       rangeText = (\<lambda>h r. case r of Within a b \<Rightarrow> take (b - a) (drop a h) | Elsewhere t \<Rightarrow> t),
       inEditor = (\<lambda>h r. case r of Within a b \<Rightarrow> True | Elsewhere t \<Rightarrow> False),
       collapsed = (\<lambda>r. case r of Within a b \<Rightarrow> a = b | Elsewhere t \<Rightarrow> t = []),
       insertHTML = (\<lambda>h r f. case r of Within a b \<Rightarrow> take a h @ f @ drop b h | Elsewhere t \<Rightarrow> h),
       marked_parse = plainMarked,
       katex_render = (\<lambda>e d. Some (''<span class="katex">'' @ e @ ''</span>'')),
       turndown = (\<lambda>h. h) \<rparr>\<close>

definition emptyPage :: "text_range page" where
  "emptyPage =
     \<lparr> editorRef = Some [], selectionRangeRef = None, aiUndoRef = None, markdown = [],
       toolbarVisible = False, aiPrompt = [], aiOpen = False, aiLoading = False,
       toast = None \<rparr>"

text \<open>The document of the scenarios: \<open>The quick fox\<close>, with \<open>quick\<close> selected.\<close>

definition foxPage :: "text_range page" where
  "foxPage = emptyPage\<lparr> editorRef := Some ''The quick fox'', markdown := ''The quick fox'',
     selectionRangeRef := Some (Within 4 9), aiPrompt := ''one word'', aiOpen := True,
     toolbarVisible := True \<rparr>"

text \<open>
  The request for \<open>quick\<close> is sent; while it is in flight the user clicks at the end of
  the text and types \<open>!\<close>. \<open>foxFlight\<close> is what \<open>submitAi\<close> holds across its \<open>await\<close>,
  \<open>foxTyped\<close> the page when the response arrives.
\<close>

definition foxFlight :: in_flight where
  "foxFlight =
     \<lparr> request =
         \<lparr> req_documentText = ''The quick fox'', req_documentMarkdown = ''The quick fox'',
           req_selectedText = ''quick'', req_userPrompt = ''one word'',
           req_selection = getSelectionMeta textBrowser (Some ''The quick fox'') (Within 4 9),
           req_selectionLength = 5 \<rparr>,
       closure_markdown = ''The quick fox'' \<rparr>"

definition foxTyped :: "text_range page" where
  "foxTyped =
     handleSelection textBrowser (Some (Within 14 14))
       (handleInput textBrowser ''The quick fox!''
          (handleSelection textBrowser (Some (Within 13 13))
             (clickOutsidePopover (fst (submitAi_send textBrowser foxPage)))))"



section \<open>A browser that shows a list\<close>

text \<open>
  What \<open>marked\<close> makes of a tight list is \<open><ul>\<close>, a line break, then for each item
  \<open><li>\<close>, its text, \<open></li>\<close> and a line break, then \<open></ul>\<close> and a line break
  (\<open>listHtml\<close>); \<open>setEditorContentFromMarkdown\<close> (lines 142 to 154) makes it the
  content of the editor when such a document is opened. The DOM flattens this content
  in two ways:
  \<^item> \<open>Range.toString()\<close> is the data of the text nodes in the range, one after the
    other, and the line breaks between the tags are text nodes: the text from the start
    of the editor to an offset in item \<open>i\<close> is a line break, the items before \<open>i\<close> each
    with the line break after it, and the part of item \<open>i\<close> before the offset;
  \<^item> \<open>innerText\<close> is the text as it is rendered: the items, each on a line of its own;
    the white space between the elements is not rendered.
  A range \<open>InItem i a b\<close> spans the offsets \<open>a\<close> to \<open>b\<close> of the text of item \<open>i\<close>.
  \<open>listView items env\<close> is a browser \<open>env\<close> whose editor shows the list \<open>items\<close>.
\<close>

datatype item_range = InItem nat nat nat

definition listHtml :: "string list \<Rightarrow> string" where
  "listHtml items =
     ''<ul>'' @ [newline] @ concat (map (\<lambda>t. ''<li>'' @ t @ ''</li>'' @ [newline]) items)
       @ ''</ul>'' @ [newline]"

definition itemText :: "string list \<Rightarrow> nat \<Rightarrow> string" where
  "itemText items i = (case drop i items of [] \<Rightarrow> [] | t # ts \<Rightarrow> t)"

definition listView ::
  "string list \<Rightarrow> (item_range, 'z) browser_scheme \<Rightarrow> (item_range, 'z) browser_scheme" where
  "listView items env =
     env\<lparr> innerText := (\<lambda>h. joinLines items),
          textBefore := (\<lambda>h r. case r of InItem i a b \<Rightarrow>
            newline # concat (map (\<lambda>t. t @ [newline]) (take i items)) @ take a (itemText items i)),
          rangeText := (\<lambda>h r. case r of InItem i a b \<Rightarrow> take (b - a) (drop a (itemText items i))),
          inEditor := (\<lambda>h r. True),
          collapsed := (\<lambda>r. case r of InItem i a b \<Rightarrow> a = b) \<rparr>"

section \<open>An instance of the numbers of the route\<close>

fun showNat :: "nat \<Rightarrow> string" where
  "showNat n =
     (if n < 10 then [char_of (48 + n)]
      else showNat (n div 10) @ [char_of (48 + n mod 10)])"

declare showNat.simps [simp del]

text \<open>Natural numbers for the numbers of a request; nothing is coerced.\<close>

definition natOps :: "nat numops" where
  "natOps = \<lparr> num_of_nat = (\<lambda>n. n), num_add = (+), num_coerce = (\<lambda>v. 0),
     num_show = showNat, val_show = (\<lambda>v. []) \<rparr>"

definition foxRequest :: "nat jsval" where
  "foxRequest = JObj [(''documentText'', JStr ''The quick fox''),
     (''selectedText'', JStr ''quick''), (''userPrompt'', JStr ''one word'')]"

text \<open>A model that answers every prompt with the same text.\<close>

definition reply :: "string \<Rightarrow> string \<Rightarrow> ai_call" where
  "reply t prompt = Returns \<lparr> ai_status = ''completed'', output_parsed = Some (Some t) \<rparr>"

section \<open>Properties of the route\<close>

lemma answerFrom_cases:
  "answerFrom call = aiFailed \<or>
   (\<exists>response t. call = Returns response \<and> ai_status response \<noteq> ''incomplete''
      \<and> output_parsed response = Some (Some t) \<and> t \<noteq> []
      \<and> answerFrom call = jsonResponse (ReplacementText (trim t)) 200)"
  by (auto simp: answerFrom_def split: ai_call.splits option.splits)

text \<open>
  The answers of the route: one of the four failures, or status 200 with the trimmed
  text of the model, which was not empty before it was trimmed.
\<close>

lemma POST_cases:
  "POST ops apiKey req ai \<in>
     {jsonResponse (ErrorMessage ''OPENAI_API_KEY is not configured.'') 500,
      jsonResponse (ErrorMessage ''Invalid JSON body.'') 400,
      jsonResponse (ErrorMessage ''documentText, selectedText, and userPrompt are required.'') 400,
      aiFailed}
   \<or> (\<exists>t. t \<noteq> [] \<and> POST ops apiKey req ai = jsonResponse (ReplacementText (trim t)) 200)"
proof (cases "\<exists>p. POST ops apiKey req ai = answerFrom (ai p)")
  case True
  then obtain p where "POST ops apiKey req ai = answerFrom (ai p)" ..
  with answerFrom_cases [of "ai p"] show ?thesis by auto
next
  case False
  then show ?thesis
    by (auto simp: POST_def Let_def split: request_json.splits if_splits)
qed

text \<open>
  Claim C8, at the input where the code departs from it. The model answers with one
  space: the text is not empty when line 129 tests it, line 133 trims it, and the route
  answers 200 with an empty \<open>replacementText\<close>.
\<close>

theorem route_success_with_empty_replacementText:
  "POST natOps True (Body foxRequest) (reply '' '')
     = \<lparr> status_code = 200, resp_body = ReplacementText [] \<rparr>
   \<and> response_ok (POST natOps True (Body foxRequest) (reply '' ''))"
  by (simp add: POST_def foxRequest_def reply_def answerFrom_def jsonResponse_def
      response_ok_def trim_def trimStart_def trimEnd_def isSpace_def natOps_def)

text \<open>
  Claim C10. A request with the three required strings is never refused for its
  \<open>selection\<close>: the route calls the model with the prompt built from the resolved
  fields and answers from what the model returns. Each field that \<open>selection\<close> omits
  takes its default: \<open>start\<close> is 0, \<open>end\<close> is \<open>start\<close> plus the length of the selected
  text, \<open>length\<close> is the length of the selected text, \<open>percentThroughDocument\<close> is 0,
  the two contexts are empty; when the whole object is omitted all of them are.
\<close>

theorem route_selection_defaults:
  assumes "getProp ops (nullish parsed (JObj [])) ''documentText'' = JStr d"
    and "getProp ops (nullish parsed (JObj [])) ''selectedText'' = JStr t"
    and "getProp ops (nullish parsed (JObj [])) ''userPrompt'' = JStr u"
    and "sel = getProp ops (nullish parsed (JObj [])) ''selection''"
    and "r = resolveSelection ops sel t"
  shows "POST ops True (Body parsed) ai =
           answerFrom (ai (buildPrompt ops u t r
             (getProp ops (nullish parsed (JObj [])) ''documentMarkdown'') d))
    \<and> (getProp ops sel ''start'' = JUndefined \<longrightarrow> sel_start r = num_of_nat ops 0)
    \<and> (getProp ops sel ''end'' = JUndefined \<longrightarrow>
         sel_end r = num_add ops (sel_start r) (num_of_nat ops (length t)))
    \<and> (getProp ops sel ''length'' = JUndefined \<longrightarrow>
         sel_length r = num_of_nat ops (length t))
    \<and> (getProp ops sel ''percentThroughDocument'' = JUndefined \<longrightarrow>
         sel_percent r = num_of_nat ops 0)
    \<and> (getProp ops sel ''contextBefore'' = JUndefined \<longrightarrow> sel_contextBefore r = [])
    \<and> (getProp ops sel ''contextAfter'' = JUndefined \<longrightarrow> sel_contextAfter r = [])
    \<and> (sel = JUndefined \<longrightarrow>
         r = \<lparr> sel_start = num_of_nat ops 0,
               sel_end = num_add ops (num_of_nat ops 0) (num_of_nat ops (length t)),
               sel_length = num_of_nat ops (length t), sel_percent = num_of_nat ops 0,
               sel_contextBefore = [], sel_contextAfter = [] \<rparr>)"
  using assms by (simp add: POST_def resolveSelection_def Let_def)

text \<open>
  The request of the scenario without a \<open>selection\<close>: the model is called and its
  answer returned, and the fields are 0, 5, 5, 0 and two empty contexts.
\<close>

theorem route_selection_defaults_witness:
  "POST natOps True (Body foxRequest) (reply ''brown'')
     = \<lparr> status_code = 200, resp_body = ReplacementText ''brown'' \<rparr>
   \<and> getProp natOps foxRequest ''selection'' = JUndefined
   \<and> resolveSelection natOps JUndefined ''quick''
     = \<lparr> sel_start = 0, sel_end = 5, sel_length = 5, sel_percent = 0,
         sel_contextBefore = [], sel_contextAfter = [] \<rparr>"
proof -
  have sel: "getProp natOps (nullish foxRequest (JObj [])) ''selection'' = JUndefined"
    by (simp add: foxRequest_def)
  have "getProp natOps (nullish foxRequest (JObj [])) ''documentText'' = JStr ''The quick fox''"
    and "getProp natOps (nullish foxRequest (JObj [])) ''selectedText'' = JStr ''quick''"
    and "getProp natOps (nullish foxRequest (JObj [])) ''userPrompt'' = JStr ''one word''"
    by (simp_all add: foxRequest_def)
  from route_selection_defaults [OF this sel [symmetric] refl, of "reply ''brown''"] sel
  show ?thesis
    by (simp add: foxRequest_def reply_def answerFrom_def jsonResponse_def natOps_def
        trim_def trimStart_def trimEnd_def isSpace_def)
qed

section \<open>Properties of the numbers\<close>

lemma roundHalfEven_near: "\<bar>of_int (roundHalfEven r) - r\<bar> \<le> 1 / 2"
proof -
  have "of_int \<lfloor>r\<rfloor> \<le> r" "r < of_int \<lfloor>r\<rfloor> + 1" by linarith+
  then show ?thesis
    by (auto simp: roundHalfEven_def Let_def)
qed

lemma roundHalfEven_mono_le:
  assumes "r \<le> of_int k"
  shows "roundHalfEven r \<le> k"
proof -
  have f: "\<lfloor>r\<rfloor> \<le> k" using assms by (simp add: floor_le_iff) 
  show ?thesis
  proof (cases "\<lfloor>r\<rfloor> = k")
    case True
    then have "r - of_int \<lfloor>r\<rfloor> \<le> 0" using assms by simp
    then show ?thesis using True by (simp add: roundHalfEven_def Let_def)
  next
    case False
    with f have "\<lfloor>r\<rfloor> + 1 \<le> k" by simp
    then show ?thesis by (auto simp: roundHalfEven_def Let_def)
  qed
qed

lemma roundHalfEven_nonneg: "0 \<le> r \<Longrightarrow> 0 \<le> roundHalfEven r"
  by (auto simp: roundHalfEven_def Let_def)

lemma floorlog2_bounds:
  assumes "0 < n"
  shows "(2::rat) ^ (floorlog 2 n - 1) \<le> of_nat n" "of_nat n < (2::rat) ^ floorlog 2 n" "0 < floorlog 2 n"
proof -
  from floorlog_bounds [of n 2] assms
  have 1: "2 ^ (floorlog 2 n - 1) \<le> n" and 2: "n < 2 ^ floorlog 2 n" by auto
  from 1 have "(of_nat (2 ^ (floorlog 2 n - 1)) :: rat) \<le> of_nat n"
    by (simp only: of_nat_le_iff)
  then show "(2::rat) ^ (floorlog 2 n - 1) \<le> of_nat n" by simp
  from 2 have "(of_nat n :: rat) < of_nat (2 ^ floorlog 2 n)"
    by (simp only: of_nat_less_iff)
  then show "of_nat n < (2::rat) ^ floorlog 2 n" by simp
  show "0 < floorlog 2 n" using assms by (simp add: floorlog_def)
qed

lemma ilog2_bounds:
  assumes "0 < q"
  shows "2 powi (ilog2 q) \<le> q \<and> q < 2 powi (ilog2 q + 1)"
proof -
  obtain a b where ab: "quotient_of q = (a, b)" by force
  then have b: "0 < b" and q: "q = of_int a / of_int b"
    using quotient_of_denom_pos quotient_of_div by auto
  with assms have a: "0 < a" by (simp add: zero_less_divide_iff)
  define la where "la = floorlog 2 (nat a)"
  define lb where "lb = floorlog 2 (nat b)"
  define d where "d = int la - int lb"
  from floorlog2_bounds [of "nat a"] a
  have a1: "(2::rat) ^ (la - 1) \<le> of_int a" and a2: "of_int a < (2::rat) ^ la" and la: "0 < la"
    by (simp_all add: la_def)
  from floorlog2_bounds [of "nat b"] b
  have b1: "(2::rat) ^ (lb - 1) \<le> of_int b" and b2: "of_int b < (2::rat) ^ lb" and lb: "0 < lb"
    by (simp_all add: lb_def)
  have pa: "(2::rat) powi (int la) = 2 ^ la" and pb: "(2::rat) powi (int lb) = 2 ^ lb" by simp_all
  have "int la - 1 = int (la - 1)" using la by simp
  then have pa1: "(2::rat) powi (int la - 1) = 2 ^ (la - 1)"
    by (simp only: power_int_of_nat)
  have "int lb - 1 = int (lb - 1)" using lb by simp
  then have pb1: "(2::rat) powi (int lb - 1) = 2 ^ (lb - 1)"
    by (simp only: power_int_of_nat)
  have bpos: "(0::rat) < of_int b" using b by simp
  have lower: "2 powi (d - 1) \<le> q"
  proof -
    have e1: "d - 1 = (int la - 1) - int lb" by (simp add: d_def)
    have "2 powi (d - 1) = (2::rat) powi ((int la - 1) - int lb)" by (simp only: e1)
    also have "\<dots> = 2 powi (int la - 1) / 2 powi (int lb)"
      by (rule power_int_diff) simp
    finally have "2 powi (d - 1) = (2::rat) ^ (la - 1) / 2 ^ lb"
      by (simp only: pa1 pb)
    also have "\<dots> \<le> of_int a / 2 ^ lb" using a1 by (simp add: divide_right_mono)
    also have "\<dots> \<le> of_int a / of_int b"
      using b2 bpos a by (simp add: frac_le)
    finally show ?thesis using q by simp
  qed
  have upper: "q < 2 powi (d + 1)"
  proof -
    have "q = of_int a / of_int b" by (rule q)
    also have "\<dots> < 2 ^ la / of_int b" using a2 bpos by (simp add: divide_strict_right_mono)
    also have "\<dots> \<le> 2 ^ la / 2 ^ (lb - 1)" using b1 by (simp add: frac_le)
    also have "\<dots> = 2 powi (d + 1)"
    proof -
      have e2: "d + 1 = int la - (int lb - 1)" by (simp add: d_def)
      have "2 powi (d + 1) = (2::rat) powi (int la - (int lb - 1))" by (simp only: e2)
      also have "\<dots> = 2 powi (int la) / 2 powi (int lb - 1)"
        by (rule power_int_diff) simp
      finally show ?thesis by (simp only: pa pb1)
    qed
    finally show ?thesis .
  qed
  have e: "ilog2 q = (if 2 powi d \<le> q then d else d - 1)"
    by (simp add: ilog2_def ab d_def la_def lb_def Let_def)
  show ?thesis
  proof (cases "2 powi d \<le> q")
    case True
    with e upper show ?thesis by simp
  next
    case False
    with e lower show ?thesis by simp
  qed
qed


lemma binary64_pos:
  assumes "0 < q"
  shows "binary64 q = of_int (roundHalfEven (q * 2 powi (52 - ilog2 q))) * 2 powi (ilog2 q - 52)"
  using assms by (simp add: binary64_def Let_def)

lemma powi_cancel: "(2::rat) powi (52 - e) * 2 powi (e - 52) = 1"
proof -
  have "(2::rat) powi (52 - e) * 2 powi (e - 52) = 2 powi ((52 - e) + (e - 52))"
    by (rule power_int_add [symmetric]) simp
  then show ?thesis by simp
qed

lemma powi_half: "(2::rat) powi (e - 52) / 2 = 2 powi (e - 53)"
proof -
  have "(2::rat) powi (e - 53) = 2 powi ((e - 52) - 1)" by simp
  also have "\<dots> = 2 powi (e - 52) / 2 powi 1" by (rule power_int_diff) simp
  finally show ?thesis by simp
qed

lemma binary64_error:
  assumes "0 < q"
  shows "\<bar>binary64 q - q\<bar> \<le> 2 powi (ilog2 q - 53)"
proof -
  define e where "e = ilog2 q"
  define m where "m = roundHalfEven (q * 2 powi (52 - e))"
  define u where "u = (2::rat) powi (e - 52)"
  have u: "0 < u" by (simp add: u_def)
  have fl: "binary64 q = of_int m * u"
    using binary64_pos [OF assms] by (simp add: m_def e_def u_def)
  have "\<bar>of_int m - q * 2 powi (52 - e)\<bar> \<le> 1 / 2"
    unfolding m_def by (rule roundHalfEven_near)
  then have "\<bar>of_int m - q * 2 powi (52 - e)\<bar> * u \<le> 1 / 2 * u"
    using u by (simp only: mult_le_cancel_right_pos)
  moreover have "\<bar>of_int m - q * 2 powi (52 - e)\<bar> * u = \<bar>of_int m * u - q * (2 powi (52 - e) * u)\<bar>"
  proof -
    have "\<bar>of_int m - q * 2 powi (52 - e)\<bar> * u = \<bar>(of_int m - q * 2 powi (52 - e)) * u\<bar>"
      using u by (simp add: abs_mult_pos)
    also have "(of_int m - q * 2 powi (52 - e)) * u = of_int m * u - q * (2 powi (52 - e) * u)"
      by (simp add: algebra_simps)
    finally show ?thesis .
  qed
  moreover have "2 powi (52 - e) * u = 1" unfolding u_def by (rule powi_cancel)
  moreover have "1 / 2 * u = 2 powi (e - 53)" unfolding u_def using powi_half [of e] by simp
  ultimately have "\<bar>of_int m * u - q\<bar> \<le> 2 powi (e - 53)" by simp
  with fl show ?thesis by (simp add: e_def)
qed

lemma ilog2_le_zero:
  assumes "0 < q" "q \<le> 1"
  shows "ilog2 q \<le> 0"
proof (rule ccontr)
  assume "\<not> ilog2 q \<le> 0"
  then have "1 \<le> ilog2 q" by simp
  then have "(2::rat) powi 1 \<le> 2 powi (ilog2 q)"
    by (intro power_int_increasing) simp_all
  with ilog2_bounds [OF assms(1)] assms(2) show False by simp
qed

lemma binary64_nonneg:
  assumes "0 \<le> q"
  shows "0 \<le> binary64 q"
proof (cases "q = 0")
  case True
  then show ?thesis by (simp add: binary64_def)
next
  case False
  with assms have q: "0 < q" by simp
  have "0 \<le> q * 2 powi (52 - ilog2 q)" using q by simp
  then have "0 \<le> roundHalfEven (q * 2 powi (52 - ilog2 q))" by (rule roundHalfEven_nonneg)
  then show ?thesis using binary64_pos [OF q] by simp
qed

lemma binary64_le_one:
  assumes "0 \<le> q" "q \<le> 1"
  shows "binary64 q \<le> 1"
proof (cases "q = 0")
  case True
  then show ?thesis by (simp add: binary64_def)
next
  case False
  with assms have q: "0 < q" by simp
  define e where "e = ilog2 q"
  have e: "e \<le> 0" unfolding e_def using q assms(2) by (rule ilog2_le_zero)
  define k where "k = (2::int) ^ nat (52 - e)"
  have k: "(of_int k :: rat) = 2 powi (52 - e)"
    using e by (simp add: k_def power_int_def)
  have "q * 2 powi (52 - e) \<le> 1 * 2 powi (52 - e)"
    using assms(2) by (intro mult_right_mono) simp_all
  then have "q * 2 powi (52 - e) \<le> of_int k" using k by simp
  then have "roundHalfEven (q * 2 powi (52 - e)) \<le> k" by (rule roundHalfEven_mono_le)
  then have "(of_int (roundHalfEven (q * 2 powi (52 - e))) :: rat) \<le> of_int k" by simp
  then have "of_int (roundHalfEven (q * 2 powi (52 - e))) * (2::rat) powi (e - 52)
      \<le> of_int k * 2 powi (e - 52)"
    by (intro mult_right_mono) simp_all
  also have "of_int k * (2::rat) powi (e - 52) = 1" using k powi_cancel [of e] by simp
  finally show ?thesis using binary64_pos [OF q] by (simp add: e_def)
qed


lemma binary64_error_unit:
  assumes "0 \<le> q" "q \<le> 1"
  shows "\<bar>binary64 q - q\<bar> \<le> 1 / 2 ^ 53"
proof (cases "q = 0")
  case True
  then show ?thesis by (simp add: binary64_def)
next
  case False
  with assms have q: "0 < q" by simp
  have "ilog2 q - 53 \<le> - 53" using ilog2_le_zero [OF q assms(2)] by simp
  then have "(2::rat) powi (ilog2 q - 53) \<le> 2 powi (- 53)"
    by (intro power_int_increasing) simp_all
  also have "(2::rat) powi (- 53) = 1 / 2 ^ 53"
    by (simp add: power_int_minus inverse_eq_divide)
  finally show ?thesis using binary64_error [OF q] by linarith
qed

lemma toFixed3_bounds:
  "of_int (toFixed3 x) \<le> x * 1000 + 1 / 2 \<and> x * 1000 + 1 / 2 < of_int (toFixed3 x) + 1"
  unfolding toFixed3_def by linarith

lemma toFixed3_js_div:
  fixes a b :: nat
  assumes b: "0 < b" and ab: "a \<le> b" and small: "b < 2 ^ 32"
  shows "\<bar>of_int (toFixed3 (js_div a b)) / 1000 - of_nat a / of_nat b\<bar> \<le> (1::rat) / 2000
    \<and> 0 \<le> toFixed3 (js_div a b) \<and> toFixed3 (js_div a b) \<le> 1000"
proof -
  define q :: rat where "q = of_nat a / of_nat b"
  define x where "x = binary64 q"
  define n where "n = toFixed3 x"
  define B :: rat where "B = of_nat b"
  have "(of_nat b :: rat) < of_nat (2 ^ 32)" using small by (simp only: of_nat_less_iff)
  then have B: "0 < B" "B < 2 ^ 32"
    using b by (simp_all add: B_def)
  have q01: "0 \<le> q" "q \<le> 1" using b ab by (simp_all add: q_def)
  have x01: "0 \<le> x" "x \<le> 1"
    unfolding x_def using q01 by (simp_all add: binary64_nonneg binary64_le_one)
  have err: "\<bar>x - q\<bar> \<le> 1 / 2 ^ 53"
    unfolding x_def using q01 by (rule binary64_error_unit)
  have n1: "of_int n \<le> x * 1000 + 1 / 2" and n2: "x * 1000 + 1 / 2 < of_int n + 1"
    using toFixed3_bounds [of x] by (simp_all add: n_def)
  have n0: "0 \<le> n"
  proof -
    have "(0::rat) < of_int n + 1" using n2 x01 by linarith
    then have "(of_int 0 :: rat) < of_int (n + 1)" by simp
    then have "(0::int) < n + 1" by (simp only: of_int_less_iff)
    then show ?thesis by simp
  qed
  have n1000: "n \<le> 1000"
  proof -
    have "(of_int n :: rat) < 1001" using n1 x01 by linarith
    then have "(of_int n :: rat) < of_int 1001" by simp
    then have "n < 1001" by (simp only: of_int_less_iff)
    then show ?thesis by simp
  qed
  have qB: "q * B = of_nat a" using b by (simp add: q_def B_def)
  define D :: int where "D = 2 * n * int b - 2000 * int a"
  have DB: "(of_int D :: rat) = 2 * of_int n * B - 2000 * (q * B)"
    unfolding qB by (simp add: D_def B_def)
  have s1: "\<bar>2 * of_int n * B - 2000 * x * B\<bar> \<le> B"
  proof -
    have "\<bar>of_int n - 1000 * x\<bar> \<le> 1 / 2" using n1 n2 by linarith
    then have "\<bar>of_int n - 1000 * x\<bar> * (2 * B) \<le> 1 / 2 * (2 * B)"
      using B by (intro mult_right_mono) simp_all
    moreover have "\<bar>of_int n - 1000 * x\<bar> * (2 * B) = \<bar>(of_int n - 1000 * x) * (2 * B)\<bar>"
      using B by (simp add: abs_mult_pos)
    moreover have "(of_int n - 1000 * x) * (2 * B) = 2 * of_int n * B - 2000 * x * B"
      by (simp add: algebra_simps)
    ultimately show ?thesis by simp
  qed
  have s2: "\<bar>2000 * x * B - 2000 * (q * B)\<bar> < 1"
  proof -
    have "\<bar>x - q\<bar> * (2000 * B) \<le> 1 / 2 ^ 53 * (2000 * B)"
      using err B by (intro mult_right_mono) simp_all
    moreover have "\<bar>x - q\<bar> * (2000 * B) = \<bar>(x - q) * (2000 * B)\<bar>"
      using B by (simp add: abs_mult_pos)
    moreover have "(x - q) * (2000 * B) = 2000 * x * B - 2000 * (q * B)"
      by (simp add: algebra_simps)
    moreover have "1 / 2 ^ 53 * (2000 * B) < 1" using B by simp
    ultimately show ?thesis by simp
  qed
  have "\<bar>of_int D :: rat\<bar> < B + 1" using s1 s2 unfolding DB by linarith
  then have "(of_int \<bar>D\<bar> :: rat) < of_int (int b + 1)" by (simp add: B_def)
  then have "\<bar>D\<bar> < int b + 1" by (simp only: of_int_less_iff)
  then have "\<bar>D\<bar> \<le> int b" by simp
  then have "(of_int \<bar>D\<bar> :: rat) \<le> of_int (int b)" by (simp only: of_int_le_iff)
  then have DleB: "\<bar>of_int D :: rat\<bar> \<le> B" by (simp add: B_def)
  have "of_int n / 1000 - q = of_int D / (2000 * B)"
    using B by (simp add: DB field_simps)
  then have "\<bar>of_int n / 1000 - q\<bar> = \<bar>of_int D :: rat\<bar> / (2000 * B)"
    using B by (simp add: abs_of_pos)
  also have "\<dots> \<le> B / (2000 * B)"
    using DleB B by (intro divide_right_mono) simp_all
  also have "\<dots> = 1 / 2000" using B by simp
  finally have "\<bar>of_int n / 1000 - q\<bar> \<le> 1 / 2000" .
  with n0 n1000 show ?thesis by (simp add: n_def x_def q_def js_div_def)
qed

section \<open>Properties of the Selection Locator\<close>

lemma nat_max_500: "nat (max 0 (int a - 500)) = a - 500"
  by linarith

lemma slice_before: "slice s (nat (max 0 (int a - 500))) a = drop (a - 500) (take a s)"
  by (simp only: nat_max_500 slice_def drop_take)

lemma slice_after:
  "e \<le> length s \<Longrightarrow> slice s e (min (length s) (e + 500)) = take 500 (drop e s)"
  by (cases "e + 500 \<le> length s") (simp_all add: slice_def min_def)

lemma getSelectionMeta_fields:
  "meta_start (getSelectionMeta env (Some h) rng) = length (textBefore env h rng)"
  "meta_end (getSelectionMeta env (Some h) rng)
     = length (textBefore env h rng) + length (rangeText env h rng)"
  "meta_length (getSelectionMeta env (Some h) rng) = length (rangeText env h rng)"
  "contextBefore (getSelectionMeta env (Some h) rng)
     = drop (length (textBefore env h rng) - 500)
         (take (length (textBefore env h rng)) (innerText env h))"
  "contextAfter (getSelectionMeta env (Some h) rng)
     = slice (innerText env h) (length (textBefore env h rng) + length (rangeText env h rng))
         (min (length (innerText env h))
            (length (textBefore env h rng) + length (rangeText env h rng) + 500))"
  "percentThroughDocument (getSelectionMeta env (Some h) rng)
     = (if length (innerText env h) = 0 then 0
        else Number_of_fixed3 (toFixed3 (js_div
          (length (textBefore env h rng) + length (rangeText env h rng))
          (length (innerText env h)))))"
  by (simp_all add: getSelectionMeta_def Let_def slice_before)

text \<open>
  When \<open>Range.toString()\<close> reads the same characters as \<open>innerText\<close> (for a range that
  spans the offsets \<open>a\<close> to \<open>b\<close> of the plain text, the text before it is the first
  \<open>a\<close> characters and its own text the next \<open>b - a\<close>), the range gets \<open>start = a\<close>,
  \<open>end = b\<close> and \<open>length = b - a\<close>; a collapsed range gets length 0, \<open>start = end\<close>
  within the text, and the two contexts are the text on either side of it.
\<close>

lemma offsets_when_flattenings_agree:
  assumes "a \<le> b" and "b \<le> length (innerText env h)"
    and "textBefore env h rng = take a (innerText env h)"
    and "rangeText env h rng = take (b - a) (drop a (innerText env h))"
  shows "meta_start (getSelectionMeta env (Some h) rng) = a
    \<and> meta_end (getSelectionMeta env (Some h) rng) = b
    \<and> meta_length (getSelectionMeta env (Some h) rng) = b - a
    \<and> (a = b \<longrightarrow>
          meta_length (getSelectionMeta env (Some h) rng) = 0
        \<and> meta_start (getSelectionMeta env (Some h) rng) = meta_end (getSelectionMeta env (Some h) rng)
        \<and> meta_end (getSelectionMeta env (Some h) rng) \<le> length (innerText env h)
        \<and> contextBefore (getSelectionMeta env (Some h) rng) = drop (a - 500) (take a (innerText env h))
        \<and> contextAfter (getSelectionMeta env (Some h) rng) = take 500 (drop a (innerText env h)))"
proof -
  have s: "length (textBefore env h rng) = a" using assms by simp
  have l: "length (rangeText env h rng) = b - a" using assms by simp
  have e: "a + (b - a) = b" using assms(1) by simp
  have after: "a = b \<Longrightarrow>
      slice (innerText env h) b (min (length (innerText env h)) (b + 500))
        = take 500 (drop a (innerText env h))"
    using assms(2) by (simp add: slice_after)
  show ?thesis
    using assms(1,2) after by (simp add: getSelectionMeta_fields s l e)
qed

text \<open>The scenario: \<open>quick\<close> in \<open>The quick fox\<close>, and the caret before \<open>quick\<close>.\<close>

lemma offsets_in_plain_text:
  "(4::nat) \<le> 9 \<and> 9 \<le> length (innerText textBrowser ''The quick fox'')
   \<and> meta_start (getSelectionMeta textBrowser (Some ''The quick fox'') (Within 4 9)) = 4
   \<and> meta_end (getSelectionMeta textBrowser (Some ''The quick fox'') (Within 4 9)) = 9
   \<and> meta_length (getSelectionMeta textBrowser (Some ''The quick fox'') (Within 4 9)) = 5
   \<and> meta_length (getSelectionMeta textBrowser (Some ''The quick fox'') (Within 4 4)) = 0
   \<and> contextBefore (getSelectionMeta textBrowser (Some ''The quick fox'') (Within 4 4)) = ''The ''
   \<and> contextAfter (getSelectionMeta textBrowser (Some ''The quick fox'') (Within 4 4)) = ''quick fox''"
  using offsets_when_flattenings_agree [of 4 9 textBrowser "''The quick fox''" "Within 4 9"]
    offsets_when_flattenings_agree [of 4 4 textBrowser "''The quick fox''" "Within 4 4"]
  by (simp add: textBrowser_def)

lemma listView_fields:
  "innerText (listView items env) h = joinLines items"
  "textBefore (listView items env) h (InItem i a b)
     = newline # concat (map (\<lambda>t. t @ [newline]) (take i items)) @ take a (itemText items i)"
  "rangeText (listView items env) h (InItem i a b) = take (b - a) (drop a (itemText items i))"
  "inEditor (listView items env) h r = True"
  by (simp_all add: listView_def)

text \<open>
  Claim C4, at an input where the code departs from it. The editor shows the list of
  the items \<open>a\<close> and \<open>b\<close>, and the item \<open>b\<close> is selected. The plain text is \<open>a\<close>,
  a line break, \<open>b\<close>, and the selection spans its offsets 2 to 3. The locator counts
  the characters that \<open>Range.toString()\<close> gives, among them the line breaks between the
  tags, which are not in the plain text: it returns \<open>start = 3\<close> and \<open>end = 4\<close>, the
  whole plain text as the context before the selection, and no context after it.
\<close>

theorem list_item_offsets:
  "listHtml [''a'', ''b''] = ''<ul>'' @ [newline] @ ''<li>a</li>'' @ [newline] @ ''<li>b</li>''
       @ [newline] @ ''</ul>'' @ [newline]
   \<and> inEditor (listView [''a'', ''b''] env) (listHtml [''a'', ''b'']) (InItem 1 0 1)
   \<and> innerText (listView [''a'', ''b''] env) (listHtml [''a'', ''b''])
       = [CHR ''a'', newline, CHR ''b'']
   \<and> rangeText (listView [''a'', ''b''] env) (listHtml [''a'', ''b'']) (InItem 1 0 1) = ''b''
   \<and> slice (innerText (listView [''a'', ''b''] env) (listHtml [''a'', ''b''])) 2 3 = ''b''
   \<and> textBefore (listView [''a'', ''b''] env) (listHtml [''a'', ''b'']) (InItem 1 0 1)
       = [newline, CHR ''a'', newline]
   \<and> meta_start (getSelectionMeta (listView [''a'', ''b''] env) (Some (listHtml [''a'', ''b'']))
         (InItem 1 0 1)) = 3
   \<and> meta_end (getSelectionMeta (listView [''a'', ''b''] env) (Some (listHtml [''a'', ''b'']))
         (InItem 1 0 1)) = 4
   \<and> meta_length (getSelectionMeta (listView [''a'', ''b''] env) (Some (listHtml [''a'', ''b'']))
         (InItem 1 0 1)) = 1
   \<and> contextBefore (getSelectionMeta (listView [''a'', ''b''] env) (Some (listHtml [''a'', ''b'']))
         (InItem 1 0 1)) = [CHR ''a'', newline, CHR ''b'']
   \<and> contextAfter (getSelectionMeta (listView [''a'', ''b''] env) (Some (listHtml [''a'', ''b'']))
         (InItem 1 0 1)) = []"
  by (simp add: getSelectionMeta_fields listView_fields listHtml_def itemText_def slice_def)


text \<open>
  When the \<open>end\<close> that the locator computes is at most the length of the plain text
  (of fewer than \<open>2^32\<close> characters): \<open>percentThroughDocument\<close> is 0 when the text is
  empty; else it is the number written \<open>k / 1000\<close> for an integer \<open>k\<close> with \<open>k / 1000\<close>
  nearest to \<open>end / length\<close>, which is \<open>end / length\<close> rounded to three decimals; and
  it lies between 0 and 1.
\<close>

lemma percent_when_end_is_inside:
  assumes "length (textBefore env h rng) + length (rangeText env h rng)
             \<le> length (innerText env h)"
    and "length (innerText env h) < 2 ^ 32"
  shows "(innerText env h = [] \<longrightarrow>
            percentThroughDocument (getSelectionMeta env (Some h) rng) = 0)
    \<and> (innerText env h \<noteq> [] \<longrightarrow>
          (\<exists>k. percentThroughDocument (getSelectionMeta env (Some h) rng)
                  = binary64 (of_int k / 1000)
             \<and> \<bar>of_int k / 1000
                  - of_nat (meta_end (getSelectionMeta env (Some h) rng))
                      / of_nat (length (innerText env h))\<bar> \<le> (1::rat) / 2000))
    \<and> 0 \<le> percentThroughDocument (getSelectionMeta env (Some h) rng)
    \<and> percentThroughDocument (getSelectionMeta env (Some h) rng) \<le> 1"
proof (cases "innerText env h = []")
  case True
  then show ?thesis by (simp add: getSelectionMeta_fields)
next
  case False
  define e where "e = length (textBefore env h rng) + length (rangeText env h rng)"
  define n where "n = length (innerText env h)"
  define k where "k = toFixed3 (js_div e n)"
  have n: "0 < n" using False by (simp add: n_def)
  have en: "e \<le> n" using assms(1) by (simp add: e_def n_def)
  have small: "n < 2 ^ 32" using assms(2) by (simp add: n_def)
  from toFixed3_js_div [OF n en small]
  have near: "\<bar>of_int k / 1000 - of_nat e / of_nat n\<bar> \<le> (1::rat) / 2000"
    and k0: "0 \<le> k" and k1: "k \<le> 1000"
    by (simp_all add: k_def)
  have p: "percentThroughDocument (getSelectionMeta env (Some h) rng)
      = binary64 (of_int k / 1000)"
    using n by (simp add: getSelectionMeta_fields k_def e_def n_def Number_of_fixed3_def)
  have "(0::rat) \<le> of_int k / 1000" using k0 by simp
  moreover have "(of_int k :: rat) / 1000 \<le> 1" using k1 by simp
  ultimately have range: "0 \<le> binary64 (of_int k / 1000)" "binary64 (of_int k / 1000) \<le> 1"
    by (simp_all add: binary64_nonneg binary64_le_one)
  have "meta_end (getSelectionMeta env (Some h) rng) = e"
    by (simp add: getSelectionMeta_fields e_def)
  with p near range False show ?thesis
    unfolding n_def by auto
qed

text \<open>The scenario: 9 of 13 characters is 0.692; the empty document gives 0.\<close>

lemma percent_in_plain_text:
  "length (textBefore textBrowser ''The quick fox'' (Within 4 9))
     + length (rangeText textBrowser ''The quick fox'' (Within 4 9))
     \<le> length (innerText textBrowser ''The quick fox'')
   \<and> length (innerText textBrowser ''The quick fox'') < 2 ^ 32
   \<and> percentThroughDocument (getSelectionMeta textBrowser (Some ''The quick fox'') (Within 4 9))
       = binary64 (692 / 1000)
   \<and> 0 \<le> percentThroughDocument (getSelectionMeta textBrowser (Some ''The quick fox'') (Within 4 9))
   \<and> percentThroughDocument (getSelectionMeta textBrowser (Some ''The quick fox'') (Within 4 9)) \<le> 1
   \<and> percentThroughDocument (getSelectionMeta textBrowser (Some []) (Within 0 0)) = 0"
proof -
  have k: "toFixed3 (js_div 9 13) = 692" by code_simp
  have e: "length (textBefore textBrowser ''The quick fox'' (Within 4 9))
      + length (rangeText textBrowser ''The quick fox'' (Within 4 9)) = 9"
    by (simp add: textBrowser_def)
  have n: "length (innerText textBrowser ''The quick fox'') = 13"
    by (simp add: textBrowser_def)
  have v: "percentThroughDocument (getSelectionMeta textBrowser (Some ''The quick fox'') (Within 4 9))
      = binary64 (692 / 1000)"
    unfolding getSelectionMeta_fields e n by (simp add: k Number_of_fixed3_def)
  from percent_when_end_is_inside [of textBrowser "''The quick fox''" "Within 4 9"]
    percent_when_end_is_inside [of textBrowser "[]" "Within 0 0"] v e n
  show ?thesis by (simp add: textBrowser_def)
qed

text \<open>
  Claim C5, at an input where the code departs from it. The editor shows the list of
  the items \<open>a\<close> and \<open>b\<close>, and the item \<open>b\<close> is selected. The \<open>end\<close> of the selection
  counts the characters of \<open>Range.toString()\<close>, 4 of them, and is divided by the length
  of \<open>innerText\<close>, which is 3; nothing bounds the quotient, and
  \<open>percentThroughDocument\<close> is 1.333.
\<close>

theorem list_item_percent:
  "inEditor (listView [''a'', ''b''] env) (listHtml [''a'', ''b'']) (InItem 1 0 1)
   \<and> meta_end (getSelectionMeta (listView [''a'', ''b''] env) (Some (listHtml [''a'', ''b'']))
         (InItem 1 0 1)) = 4
   \<and> length (innerText (listView [''a'', ''b''] env) (listHtml [''a'', ''b''])) = 3
   \<and> percentThroughDocument (getSelectionMeta (listView [''a'', ''b''] env)
         (Some (listHtml [''a'', ''b''])) (InItem 1 0 1)) = binary64 (1333 / 1000)
   \<and> 1 < percentThroughDocument (getSelectionMeta (listView [''a'', ''b''] env)
         (Some (listHtml [''a'', ''b''])) (InItem 1 0 1))"
proof -
  have k: "toFixed3 (js_div 4 3) = 1333" by code_simp
  have b: "(1::rat) < binary64 (1333 / 1000)" by code_simp
  have e: "length (textBefore (listView [''a'', ''b''] env) (listHtml [''a'', ''b'']) (InItem 1 0 1))
      + length (rangeText (listView [''a'', ''b''] env) (listHtml [''a'', ''b'']) (InItem 1 0 1)) = 4"
    by (simp add: listView_fields itemText_def)
  have n: "length (innerText (listView [''a'', ''b''] env) (listHtml [''a'', ''b''])) = 3"
    by (simp add: listView_fields)
  have p: "percentThroughDocument (getSelectionMeta (listView [''a'', ''b''] env)
         (Some (listHtml [''a'', ''b''])) (InItem 1 0 1)) = binary64 (1333 / 1000)"
    unfolding getSelectionMeta_fields e n by (simp add: k Number_of_fixed3_def)
  have m: "meta_end (getSelectionMeta (listView [''a'', ''b''] env) (Some (listHtml [''a'', ''b'']))
         (InItem 1 0 1)) = 4"
    unfolding getSelectionMeta_fields e ..
  show ?thesis
    unfolding p using b m n by (simp add: listView_fields)
qed

section \<open>Properties of the page\<close>

lemma textBrowser_fields:
  "innerText textBrowser h = h"
  "textBefore textBrowser h (Within a b) = take a h"
  "textBefore textBrowser h (Elsewhere t) = h"
  "rangeText textBrowser h (Within a b) = take (b - a) (drop a h)"
  "rangeText textBrowser h (Elsewhere t) = t"
  "inEditor textBrowser h (Within a b) = True"
  "inEditor textBrowser h (Elsewhere t) = False"
  "collapsed textBrowser (Within a b) = (a = b)"
  "collapsed textBrowser (Elsewhere t) = (t = [])"
  "insertHTML textBrowser h (Within a b) f = take a h @ f @ drop b h"
  "insertHTML textBrowser h (Elsewhere t) f = h"
  "marked_parse textBrowser = plainMarked"
  "turndown textBrowser h = h"
  by (simp_all add: textBrowser_def)

lemma foxPage_fields:
  "editorRef foxPage = Some ''The quick fox''"
  "markdown foxPage = ''The quick fox''"
  "selectionRangeRef foxPage = Some (Within 4 9)"
  "aiUndoRef foxPage = None"
  "aiPrompt foxPage = ''one word''"
  "aiOpen foxPage = True"
  "toast foxPage = None"
  by (simp_all add: foxPage_def emptyPage_def)

lemma emptyPage_fields:
  "editorRef emptyPage = Some []"
  "selectionRangeRef emptyPage = None"
  "aiUndoRef emptyPage = None"
  "toast emptyPage = None"
  by (simp_all add: emptyPage_def)

lemma foxSend: "submitAi_send textBrowser foxPage = (foxPage\<lparr> aiLoading := True \<rparr>, Some foxFlight)"
  by (simp add: submitAi_send_def foxPage_fields foxFlight_def textBrowser_fields
      trim_def trimStart_def trimEnd_def isSpace_def)

lemma foxTyped_fields:
  "editorRef foxTyped = Some ''The quick fox!''"
  "markdown foxTyped = ''The quick fox!''"
  "selectionRangeRef foxTyped = Some (Within 14 14)"
proof -
  define s1 where "s1 = clickOutsidePopover (fst (submitAi_send textBrowser foxPage))"
  define s2 where "s2 = handleSelection textBrowser (Some (Within 13 13)) s1"
  define s3 where "s3 = handleInput textBrowser ''The quick fox!'' s2"
  have s1: "editorRef s1 = Some ''The quick fox''"
    by (simp add: s1_def foxSend clickOutsidePopover_def foxPage_fields)
  have s2: "editorRef s2 = Some ''The quick fox''"
    using s1 by (simp add: s2_def handleSelection_def textBrowser_fields)
  have s3: "editorRef s3 = Some ''The quick fox!''" "markdown s3 = ''The quick fox!''"
    using s2 by (simp_all add: s3_def handleInput_def updateMarkdownFromEditor_def textBrowser_fields)
  have t: "foxTyped = handleSelection textBrowser (Some (Within 14 14)) s3"
    by (simp only: foxTyped_def s1_def s2_def s3_def)
  show "editorRef foxTyped = Some ''The quick fox!''"
    "markdown foxTyped = ''The quick fox!''"
    "selectionRangeRef foxTyped = Some (Within 14 14)"
    using s3 by (simp_all add: t handleSelection_def textBrowser_fields)
qed

lemma submitAi_receive_failure:
  assumes "outcome = Rejected \<or> outcome = Responded False b \<or> outcome = Responded ok Unreadable"
  shows "submitAi_receive env flight outcome s
    = s\<lparr> toast := Some failureToast, aiLoading := False, aiOpen := False, aiPrompt := [] \<rparr>"
  using assms by (auto simp: submitAi_receive_def)

lemma applyAiReplacement_fields:
  assumes "editorRef s = Some h" "selectionRangeRef s = Some rng"
  shows "editorRef (applyAiReplacement env md r s)
      = Some (insertHTML env h rng (toInlineAwareHtml env (case r of None \<Rightarrow> [] | Some t \<Rightarrow> t)))"
    and "markdown (applyAiReplacement env md r s)
      = turndown env (insertHTML env h rng (toInlineAwareHtml env (case r of None \<Rightarrow> [] | Some t \<Rightarrow> t)))"
    and "aiUndoRef (applyAiReplacement env md r s) = Some \<lparr> snap_html = h, snap_markdown = md \<rparr>"
    and "toast (applyAiReplacement env md r s) = Some undoToast"
    and "selectionRangeRef (applyAiReplacement env md r s) = Some rng"
  using assms by (simp_all add: applyAiReplacement_def updateMarkdownFromEditor_def Let_def)

lemma submitAi_receive_success:
  "submitAi_receive env flight (Responded True (Data r)) s
    = (applyAiReplacement env (closure_markdown flight) r s)
        \<lparr> aiLoading := False, aiOpen := False, aiPrompt := [] \<rparr>"
  by (simp add: submitAi_receive_def)

lemma undoAiEdit_fields:
  assumes "editorRef s = Some h" "aiUndoRef s = Some u"
  shows "editorRef (undoAiEdit s) = Some (snap_html u)"
    and "markdown (undoAiEdit s) = snap_markdown u"
    and "aiUndoRef (undoAiEdit s) = None"
    and "toast (undoAiEdit s) = None"
  using assms by (simp_all add: undoAiEdit_def)

lemma clickToastAction_undo:
  "toast s = Some undoToast \<Longrightarrow> clickToastAction s = undoAiEdit s"
  by (simp add: clickToastAction_def undoToast_def)

lemma toInlineAwareHtml_empty: "toInlineAwareHtml textBrowser [] = []"
  by code_simp

lemma toInlineAwareHtml_brown: "toInlineAwareHtml textBrowser ''brown'' = ''brown''"
  by code_simp

lemma foxApplied_fields:
  "editorRef (submitAi textBrowser (Responded True (Data (Some ''brown''))) foxPage)
     = Some ''The brown fox''"
  "markdown (submitAi textBrowser (Responded True (Data (Some ''brown''))) foxPage)
     = ''The brown fox''"
  "aiUndoRef (submitAi textBrowser (Responded True (Data (Some ''brown''))) foxPage)
     = Some \<lparr> snap_html = ''The quick fox'', snap_markdown = ''The quick fox'' \<rparr>"
  "toast (submitAi textBrowser (Responded True (Data (Some ''brown''))) foxPage) = Some undoToast"
proof -
  have e: "editorRef (foxPage\<lparr> aiLoading := True \<rparr>) = Some ''The quick fox''"
    and r: "selectionRangeRef (foxPage\<lparr> aiLoading := True \<rparr>) = Some (Within 4 9)"
    by (simp_all add: foxPage_fields)
  have s: "submitAi textBrowser (Responded True (Data (Some ''brown''))) foxPage
      = (applyAiReplacement textBrowser ''The quick fox'' (Some ''brown'')
           (foxPage\<lparr> aiLoading := True \<rparr>))
          \<lparr> aiLoading := False, aiOpen := False, aiPrompt := [] \<rparr>"
    by (simp add: submitAi_def foxSend submitAi_receive_success foxFlight_def)
  show "editorRef (submitAi textBrowser (Responded True (Data (Some ''brown''))) foxPage)
     = Some ''The brown fox''"
    "markdown (submitAi textBrowser (Responded True (Data (Some ''brown''))) foxPage)
     = ''The brown fox''"
    "aiUndoRef (submitAi textBrowser (Responded True (Data (Some ''brown''))) foxPage)
     = Some \<lparr> snap_html = ''The quick fox'', snap_markdown = ''The quick fox'' \<rparr>"
    "toast (submitAi textBrowser (Responded True (Data (Some ''brown''))) foxPage) = Some undoToast"
    unfolding s
    by (simp_all add: applyAiReplacement_fields [OF e r] toInlineAwareHtml_brown textBrowser_fields)
qed

text \<open>
  Claim C1 fails as stated. The response for \<open>quick\<close> in \<open>The quick fox\<close> is \<open>ok\<close> and
  its \<open>replacementText\<close> is empty, or missing: the selection is replaced by nothing, the
  document becomes \<open>The  fox\<close>, and the toast is the one of an applied edit, not the
  failure notice.
\<close>

theorem empty_replacement_is_applied:
  "editorRef foxPage = Some ''The quick fox''
   \<and> editorRef (submitAi textBrowser (Responded True (Data (Some []))) foxPage) = Some ''The  fox''
   \<and> markdown (submitAi textBrowser (Responded True (Data (Some []))) foxPage) = ''The  fox''
   \<and> toast (submitAi textBrowser (Responded True (Data (Some []))) foxPage) = Some undoToast
   \<and> editorRef (submitAi textBrowser (Responded True (Data None)) foxPage) = Some ''The  fox''
   \<and> toast (submitAi textBrowser (Responded True (Data None)) foxPage) = Some undoToast
   \<and> undoToast \<noteq> failureToast"
proof -
  have e: "editorRef (foxPage\<lparr> aiLoading := True \<rparr>) = Some ''The quick fox''"
    and r: "selectionRangeRef (foxPage\<lparr> aiLoading := True \<rparr>) = Some (Within 4 9)"
    by (simp_all add: foxPage_fields)
  have s: "submitAi textBrowser (Responded True (Data x)) foxPage
      = (applyAiReplacement textBrowser ''The quick fox'' x (foxPage\<lparr> aiLoading := True \<rparr>))
          \<lparr> aiLoading := False, aiOpen := False, aiPrompt := [] \<rparr>" for x
    by (simp add: submitAi_def foxSend submitAi_receive_success foxFlight_def)
  show ?thesis
    unfolding s
    by (simp add: applyAiReplacement_fields [OF e r] toInlineAwareHtml_empty textBrowser_fields
        foxPage_fields undoToast_def failureToast_def notice_def)
qed

text \<open>
  Claim C1 as the code has it. A request whose transport fails (\<open>fetch\<close> rejects, the
  status is not \<open>ok\<close>, or the body cannot be read) leaves the editor content, the
  markdown and the undo snapshot as they are and shows the failure notice. A response
  that is \<open>ok\<close> is applied whatever its \<open>replacementText\<close>: the fragment made from it
  replaces the stored range, the snapshot is taken and the toast with Undo is shown; a
  missing \<open>replacementText\<close> is applied as the empty string.
\<close>

theorem response_handling:
  "(outcome = Rejected \<or> outcome = Responded False b \<or> outcome = Responded ok Unreadable \<longrightarrow>
       editorRef (submitAi_receive env flight outcome s) = editorRef s
     \<and> markdown (submitAi_receive env flight outcome s) = markdown s
     \<and> aiUndoRef (submitAi_receive env flight outcome s) = aiUndoRef s
     \<and> toast (submitAi_receive env flight outcome s) = Some failureToast)
   \<and> (editorRef s = Some h \<and> selectionRangeRef s = Some rng \<longrightarrow>
       editorRef (submitAi_receive env flight (Responded True (Data r)) s)
         = Some (insertHTML env h rng
             (toInlineAwareHtml env (case r of None \<Rightarrow> [] | Some t \<Rightarrow> t)))
     \<and> aiUndoRef (submitAi_receive env flight (Responded True (Data r)) s)
         = Some \<lparr> snap_html = h, snap_markdown = closure_markdown flight \<rparr>
     \<and> toast (submitAi_receive env flight (Responded True (Data r)) s) = Some undoToast)
   \<and> submitAi_receive env flight (Responded True (Data None)) s
       = submitAi_receive env flight (Responded True (Data (Some []))) s"
proof -
  have "editorRef (submitAi_receive env flight outcome s) = editorRef s
     \<and> markdown (submitAi_receive env flight outcome s) = markdown s
     \<and> aiUndoRef (submitAi_receive env flight outcome s) = aiUndoRef s
     \<and> toast (submitAi_receive env flight outcome s) = Some failureToast"
    if "outcome = Rejected \<or> outcome = Responded False b \<or> outcome = Responded ok Unreadable"
    using submitAi_receive_failure [OF that, of env flight s] by simp
  moreover have "editorRef (submitAi_receive env flight (Responded True (Data r)) s)
         = Some (insertHTML env h rng
             (toInlineAwareHtml env (case r of None \<Rightarrow> [] | Some t \<Rightarrow> t)))
     \<and> aiUndoRef (submitAi_receive env flight (Responded True (Data r)) s)
         = Some \<lparr> snap_html = h, snap_markdown = closure_markdown flight \<rparr>
     \<and> toast (submitAi_receive env flight (Responded True (Data r)) s) = Some undoToast"
    if "editorRef s = Some h" "selectionRangeRef s = Some rng"
    using applyAiReplacement_fields [OF that, of env "closure_markdown flight" r]
    by (simp add: submitAi_receive_success)
  moreover have "submitAi_receive env flight (Responded True (Data None)) s
       = submitAi_receive env flight (Responded True (Data (Some []))) s"
    by (simp add: submitAi_receive_success applyAiReplacement_def split: option.splits)
  ultimately show ?thesis by blast
qed

text \<open>The three failures and two applied responses, on the page of the scenario.\<close>

theorem response_handling_witness:
  "editorRef (submitAi_receive textBrowser foxFlight Rejected foxTyped) = Some ''The quick fox!''
   \<and> markdown (submitAi_receive textBrowser foxFlight (Responded False Unreadable) foxTyped)
       = ''The quick fox!''
   \<and> toast (submitAi_receive textBrowser foxFlight (Responded False (Data (Some ''brown''))) foxTyped)
       = Some failureToast
   \<and> editorRef (submitAi_receive textBrowser foxFlight (Responded True (Data (Some ''brown''))) foxTyped)
       = Some ''The quick fox!brown''
   \<and> toast (submitAi_receive textBrowser foxFlight (Responded True (Data None)) foxTyped)
       = Some undoToast"
  using response_handling [of Rejected Unreadable False textBrowser foxFlight foxTyped
      "''The quick fox!''" "Within 14 14" "Some ''brown''"]
    response_handling [of "Responded False Unreadable" Unreadable False textBrowser foxFlight foxTyped
      "''The quick fox!''" "Within 14 14" None]
    response_handling [of "Responded False (Data (Some ''brown''))" "Data (Some ''brown'')" False
      textBrowser foxFlight foxTyped "''The quick fox!''" "Within 14 14" None]
  by (simp add: foxTyped_fields toInlineAwareHtml_brown textBrowser_fields)

text \<open>
  The undo after a replacement, when \<open>applyAiReplacement\<close> runs with the \<open>markdown\<close> of
  the current state: the content and the markdown are those before the replacement.
\<close>

lemma undo_restores_when_closure_is_current:
  assumes "editorRef s = Some h" "selectionRangeRef s = Some rng"
  shows "editorRef (clickToastAction (applyAiReplacement env (markdown s) r s)) = Some h"
    and "markdown (clickToastAction (applyAiReplacement env (markdown s) r s)) = markdown s"
    and "aiUndoRef (clickToastAction (applyAiReplacement env (markdown s) r s)) = None"
proof -
  note a = applyAiReplacement_fields [OF assms, of env "markdown s" r]
  have c: "clickToastAction (applyAiReplacement env (markdown s) r s)
      = undoAiEdit (applyAiReplacement env (markdown s) r s)"
    using a(4) by (rule clickToastAction_undo)
  show "editorRef (clickToastAction (applyAiReplacement env (markdown s) r s)) = Some h"
    "markdown (clickToastAction (applyAiReplacement env (markdown s) r s)) = markdown s"
    "aiUndoRef (clickToastAction (applyAiReplacement env (markdown s) r s)) = None"
    unfolding c using undoAiEdit_fields [OF a(1) a(3)] by simp_all
qed

text \<open>
  Claim C2, at the input where the code departs from it. The user types \<open>!\<close> while the
  request is in flight. The response is applied by the closure of the render that sent
  the request: the snapshot takes the content of the editor as it is now,
  \<open>The quick fox!\<close>, and the markdown of that render, \<open>The quick fox\<close>. The undo
  restores the content, and sets the markdown to \<open>The quick fox\<close>, which is not what it
  was just before the replacement.
\<close>

theorem undo_after_typing_restores_stale_markdown:
  "submitAi_send textBrowser foxPage = (foxPage\<lparr> aiLoading := True \<rparr>, Some foxFlight)
   \<and> editorRef foxTyped = Some ''The quick fox!''
   \<and> markdown foxTyped = ''The quick fox!''
   \<and> editorRef (submitAi_receive textBrowser foxFlight
         (Responded True (Data (Some ''brown''))) foxTyped) = Some ''The quick fox!brown''
   \<and> editorRef (clickToastAction (submitAi_receive textBrowser foxFlight
         (Responded True (Data (Some ''brown''))) foxTyped)) = Some ''The quick fox!''
   \<and> markdown (clickToastAction (submitAi_receive textBrowser foxFlight
         (Responded True (Data (Some ''brown''))) foxTyped)) = ''The quick fox''"
proof -
  define after where "after = submitAi_receive textBrowser foxFlight
         (Responded True (Data (Some ''brown''))) foxTyped"
  have cm: "closure_markdown foxFlight = ''The quick fox''" by (simp add: foxFlight_def)
  note a = applyAiReplacement_fields [OF foxTyped_fields(1) foxTyped_fields(3),
      of textBrowser "''The quick fox''" "Some ''brown''"]
  have e: "editorRef after = Some ''The quick fox!brown''"
    and u: "aiUndoRef after = Some \<lparr> snap_html = ''The quick fox!'', snap_markdown = ''The quick fox'' \<rparr>"
    and t: "toast after = Some undoToast"
    by (simp_all add: after_def submitAi_receive_success cm a toInlineAwareHtml_brown
        textBrowser_fields)
  have c: "clickToastAction after = undoAiEdit after" using t by (rule clickToastAction_undo)
  show ?thesis
    unfolding after_def [symmetric] c
    by (simp add: foxSend foxTyped_fields e undoAiEdit_fields [OF e u])
qed

text \<open>
  What the page does about a missing selection. Without an editor element
  \<open>getSelectionMeta\<close> returns metadata whose offsets are all zero; \<open>submitAi\<close>, its only
  caller, does not call it then. \<open>handleSelection\<close> does not capture a missing selection
  or one outside the editor (it hides the toolbar and leaves the stored range alone);
  \<open>openAiPrompt\<close> shows a notice when no range is stored and none is selected; \<open>submitAi\<close>
  closes the popover and sends nothing when no range is stored or the editor is absent.
\<close>

lemma no_selection_guards:
  "getSelectionMeta env None rng
     = \<lparr> meta_start = 0, meta_end = 0, meta_length = 0, percentThroughDocument = 0,
         contextBefore = [], contextAfter = [] \<rparr>
   \<and> handleSelection env None s = s\<lparr> toolbarVisible := False \<rparr>
   \<and> (editorRef s = Some h \<and> \<not> inEditor env h rng \<longrightarrow>
         handleSelection env (Some rng) s = s\<lparr> toolbarVisible := False \<rparr>)
   \<and> (selectionRangeRef s = None \<longrightarrow>
         openAiPrompt None s = s\<lparr> toast := Some noSelectionToast \<rparr>)
   \<and> (selectionRangeRef s = None \<or> editorRef s = None \<longrightarrow>
         submitAi_send env s = (s\<lparr> aiOpen := False \<rparr>, None))"
  by (auto simp: getSelectionMeta_def handleSelection_def openAiPrompt_def submitAi_send_def
      split: option.splits)

text \<open>A selection in the toast, no selection at all, and a page that never had one.\<close>

lemma no_selection_guards_on_the_page:
  "handleSelection textBrowser (Some (Elsewhere ''Saved to file.'')) foxPage
     = foxPage\<lparr> toolbarVisible := False \<rparr>
   \<and> handleSelection textBrowser None foxPage = foxPage\<lparr> toolbarVisible := False \<rparr>
   \<and> openAiPrompt None emptyPage = emptyPage\<lparr> toast := Some noSelectionToast \<rparr>
   \<and> submitAi_send textBrowser emptyPage = (emptyPage\<lparr> aiOpen := False \<rparr>, None)"
  using no_selection_guards [where env = textBrowser and s = foxPage
      and h = "''The quick fox''" and rng = "Elsewhere ''Saved to file.''"]
    no_selection_guards [where env = textBrowser and s = emptyPage
      and h = "[]" and rng = "Elsewhere ''Saved to file.''"]
  by (simp add: foxPage_fields textBrowser_fields emptyPage_fields)




text \<open>
  Claim C9 fails as stated: when the timer of the undo toast fires, the toast goes and
  the snapshot stays in \<open>aiUndoRef\<close>.
\<close>

theorem snapshot_survives_toast_expiry:
  "toast (toastTimeout (submitAi textBrowser (Responded True (Data (Some ''brown''))) foxPage)) = None
   \<and> aiUndoRef (toastTimeout (submitAi textBrowser (Responded True (Data (Some ''brown''))) foxPage))
       = Some \<lparr> snap_html = ''The quick fox'', snap_markdown = ''The quick fox'' \<rparr>"
proof -
  have e: "editorRef (foxPage\<lparr> aiLoading := True \<rparr>) = Some ''The quick fox''"
    and r: "selectionRangeRef (foxPage\<lparr> aiLoading := True \<rparr>) = Some (Within 4 9)"
    by (simp_all add: foxPage_fields)
  have s: "submitAi textBrowser (Responded True (Data (Some ''brown''))) foxPage
      = (applyAiReplacement textBrowser ''The quick fox'' (Some ''brown'')
           (foxPage\<lparr> aiLoading := True \<rparr>))
          \<lparr> aiLoading := False, aiOpen := False, aiPrompt := [] \<rparr>"
    by (simp add: submitAi_def foxSend submitAi_receive_success foxFlight_def)
  show ?thesis
    unfolding s by (simp add: toastTimeout_def applyAiReplacement_fields [OF e r])
qed

text \<open>
  Claim C9 as the code has it. The expiry of the toast removes the toast only: the
  snapshot stays stored, and with no toast there is no button to invoke it. The
  snapshot is discarded when the undo action consumes it, and a new replacement puts
  its own snapshot in its place.
\<close>

theorem snapshot_lifetime:
  "aiUndoRef (toastTimeout s) = aiUndoRef s
   \<and> toast (toastTimeout s) = None
   \<and> (toast s = None \<longrightarrow> clickToastAction s = s)
   \<and> (editorRef s = Some h \<and> aiUndoRef s = Some u \<and> toast s = Some undoToast \<longrightarrow>
         aiUndoRef (clickToastAction s) = None \<and> toast (clickToastAction s) = None)
   \<and> (editorRef s = Some h \<and> selectionRangeRef s = Some rng \<longrightarrow>
         aiUndoRef (applyAiReplacement env md r s) = Some \<lparr> snap_html = h, snap_markdown = md \<rparr>)"
proof -
  have "aiUndoRef (toastTimeout s) = aiUndoRef s" "toast (toastTimeout s) = None"
    by (simp_all add: toastTimeout_def split: option.splits)
  moreover have "clickToastAction s = s" if "toast s = None"
    using that by (simp add: clickToastAction_def)
  moreover have "aiUndoRef (clickToastAction s) = None \<and> toast (clickToastAction s) = None"
    if "editorRef s = Some h" "aiUndoRef s = Some u" "toast s = Some undoToast"
    using undoAiEdit_fields [OF that(1,2)] clickToastAction_undo [OF that(3)] by simp
  moreover have "aiUndoRef (applyAiReplacement env md r s) = Some \<lparr> snap_html = h, snap_markdown = md \<rparr>"
    if "editorRef s = Some h" "selectionRangeRef s = Some rng"
    using that by (rule applyAiReplacement_fields)
  ultimately show ?thesis by blast
qed

text \<open>The undo of the scenario, a second replacement, and a page without a toast.\<close>

theorem snapshot_lifetime_witness:
  "aiUndoRef (clickToastAction
       (submitAi textBrowser (Responded True (Data (Some ''brown''))) foxPage)) = None
   \<and> toast (clickToastAction
       (submitAi textBrowser (Responded True (Data (Some ''brown''))) foxPage)) = None
   \<and> aiUndoRef (applyAiReplacement textBrowser ''The brown fox'' (Some ''brown'') foxTyped)
       = Some \<lparr> snap_html = ''The quick fox!'', snap_markdown = ''The brown fox'' \<rparr>
   \<and> clickToastAction emptyPage = emptyPage"
  using snapshot_lifetime [where s = "submitAi textBrowser (Responded True (Data (Some ''brown''))) foxPage"
      and h = "''The brown fox''"
      and u = "\<lparr> snap_html = ''The quick fox'', snap_markdown = ''The quick fox'' \<rparr>"
      and rng = "Within 4 9" and env = textBrowser and md = "[]" and r = None]
    snapshot_lifetime [where s = foxTyped and h = "''The quick fox!''" and rng = "Within 14 14"
      and env = textBrowser and md = "''The brown fox''" and r = "Some ''brown''"
      and u = "\<lparr> snap_html = [], snap_markdown = [] \<rparr>"]
    snapshot_lifetime [where s = emptyPage and h = "[]" and rng = "Within 0 0"
      and env = textBrowser and md = "[]" and r = None
      and u = "\<lparr> snap_html = [], snap_markdown = [] \<rparr>"]
  by (simp add: foxApplied_fields foxTyped_fields emptyPage_fields)

section \<open>Properties of the Math Expositor\<close>

lemma untilDollars_source: "untilDollars s = Some (p, r) \<Longrightarrow> s = p @ ''$$'' @ r"
  by (induction s arbitrary: p r rule: untilDollars.induct) (auto split: if_splits)

lemma untilDollars_found: "untilDollars (p @ ''$$'' @ r) \<noteq> None"
proof (induction p)
  case Nil
  then show ?case by simp
next
  case (Cons c p)
  show ?case
  proof (cases "p @ ''$$'' @ r")
    case Nil
    then show ?thesis by simp
  next
    case (Cons d q)
    with Cons.IH show ?thesis by auto
  qed
qed

lemma matchBlock_source:
  "matchBlock s = Some (e, r) \<Longrightarrow> s = ''$$'' @ e @ ''$$'' @ r \<and> e \<noteq> []"
  by (induction s rule: matchBlock.induct)
    (auto split: if_splits dest!: untilDollars_source)

lemma matchBlock_found: "matchBlock (''$$'' @ x # inner @ ''$$'' @ post) \<noteq> None"
  using untilDollars_found [of inner post] by simp

lemma nextBlock_prefix: "nextBlock s = (pre, m) \<Longrightarrow> \<exists>rem. s = pre @ rem"
proof (induction s arbitrary: pre m)
  case Nil
  then show ?case by simp
next
  case (Cons c s)
  show ?case
  proof (cases "matchBlock (c # s)")
    case None
    with Cons.prems obtain pre' where p: "nextBlock s = (pre', m)" "pre = c # pre'"
      by (auto split: prod.splits)
    from Cons.IH [OF p(1)] p(2) show ?thesis by auto
  next
    case (Some a)
    with Cons.prems show ?thesis by simp
  qed
qed

lemma nextBlock_source:
  "nextBlock s = (pre, None) \<Longrightarrow> s = pre"
  "nextBlock s = (pre, Some (e, r)) \<Longrightarrow> s = pre @ ''$$'' @ e @ ''$$'' @ r \<and> e \<noteq> []"
proof (induction s arbitrary: pre)
  case Nil
  { case 1 then show ?case by simp }
  { case 2 then show ?case by simp }
next
  case (Cons c s)
  { case 1
    then show ?case using Cons.IH(1) by (auto split: option.splits prod.splits) }
  { case 2
    show ?case
    proof (cases "matchBlock (c # s)")
      case None
      with 2 obtain pre' where p: "nextBlock s = (pre', Some (e, r))" "pre = c # pre'"
        by (auto split: prod.splits)
      from Cons.IH(2) [OF p(1)] p(2) show ?thesis by simp
    next
      case (Some a)
      with 2 have "pre = []" "matchBlock (c # s) = Some (e, r)" by simp_all
      with matchBlock_source [of "c # s" e r] show ?thesis by simp
    qed }
qed

lemma nextBlock_complete:
  assumes "nextBlock s = (pre, m)"
  shows "\<not> (\<exists>u x inner post. pre = u @ ''$$'' @ x # inner @ ''$$'' @ post)"
  using assms
proof (induction s arbitrary: pre m)
  case Nil
  then show ?case by simp
next
  case (Cons c s)
  show ?case
  proof (cases "matchBlock (c # s)")
    case (Some a)
    with Cons.prems show ?thesis by simp
  next
    case None
    with Cons.prems obtain pre' where p: "nextBlock s = (pre', m)" "pre = c # pre'"
      by (auto split: prod.splits)
    from nextBlock_prefix [OF Cons.prems] obtain rem where rem: "c # s = pre @ rem" by blast
    show ?thesis
    proof
      assume "\<exists>u x inner post. pre = u @ ''$$'' @ x # inner @ ''$$'' @ post"
      then obtain u x inner post where e: "pre = u @ ''$$'' @ x # inner @ ''$$'' @ post" by blast
      show False
      proof (cases u)
        case Nil
        with e rem have "c # s = ''$$'' @ x # inner @ ''$$'' @ (post @ rem)" by simp
        with matchBlock_found [of x inner "post @ rem"] None show False by simp
      next
        case (Cons c' u')
        with e p(2) have "pre' = u' @ ''$$'' @ x # inner @ ''$$'' @ post" by simp
        with Cons.IH [OF p(1)] show False by blast
      qed
    qed
  qed
qed


lemma scanBlock_source: "concat (map (sourceOf ''$$'') (scanBlock s)) = s"
proof (induction s rule: scanBlock.induct)
  case (1 s)
  obtain pre m where n: "nextBlock s = (pre, m)" by force
  show ?case
  proof (cases m)
    case None
    with n nextBlock_source(1) [of s pre] show ?thesis
      by (subst scanBlock.simps) simp
  next
    case (Some a)
    obtain e r where a: "a = (e, r)" by force
    from "1.IH" [of a] n Some have "concat (map (sourceOf ''$$'') (scanBlock r)) = r"
      by (simp add: a)
    with n Some a nextBlock_source(2) [of s pre e r] show ?thesis
      by (subst scanBlock.simps) simp
  qed
qed

lemma scanBlock_complete:
  "Plain t \<in> set (scanBlock s) \<Longrightarrow>
     \<not> (\<exists>u x inner post. t = u @ ''$$'' @ x # inner @ ''$$'' @ post)"
proof (induction s rule: scanBlock.induct)
  case (1 s)
  obtain pre m where n: "nextBlock s = (pre, m)" by force
  show ?case
  proof (cases m)
    case None
    with n "1.prems" have "t = pre" by (subst (asm) scanBlock.simps) simp
    with nextBlock_complete [OF n] show ?thesis by simp
  next
    case (Some a)
    with n "1.prems" have "t = pre \<or> Plain t \<in> set (scanBlock (snd a))"
      by (subst (asm) scanBlock.simps) simp
    then show ?thesis
    proof
      assume "t = pre"
      with nextBlock_complete [OF n] show ?thesis by simp
    next
      assume "Plain t \<in> set (scanBlock (snd a))"
      with "1.IH" [of a] n Some show ?thesis by simp
    qed
  qed
qed

lemma scanBlock_spans: "Span e \<in> set (scanBlock s) \<Longrightarrow> e \<noteq> []"
proof (induction s rule: scanBlock.induct)
  case (1 s)
  obtain pre m where n: "nextBlock s = (pre, m)" by force
  show ?case
  proof (cases m)
    case None
    with n "1.prems" show ?thesis by (subst (asm) scanBlock.simps) simp
  next
    case (Some a)
    obtain e' r where a: "a = (e', r)" by force
    with n Some "1.prems" have "e = e' \<or> Span e \<in> set (scanBlock r)"
      by (subst (asm) scanBlock.simps) simp
    then show ?thesis
    proof
      assume "e = e'"
      with nextBlock_source(2) [of s pre e' r] n Some a show ?thesis by simp
    next
      assume "Span e \<in> set (scanBlock r)"
      with "1.IH" [of a] n Some a show ?thesis by simp
    qed
  qed
qed

lemma dollarSpan_source:
  assumes "dollarSpan s = Some (e, r)"
  shows "s = dollar # e @ dollar # r \<and> e \<noteq> [] \<and> dollar \<notin> set e \<and> newline \<notin> set e"
proof (cases s)
  case Nil
  with assms show ?thesis by simp
next
  case (Cons c s')
  with assms have c: "c = dollar" and e: "e = takeWhile (\<lambda>x. x \<noteq> dollar) s'"
    and r: "r = tl (dropWhile (\<lambda>x. x \<noteq> dollar) s')"
    and ne: "e \<noteq> []" and d: "dropWhile (\<lambda>x. x \<noteq> dollar) s' \<noteq> []" and nl: "newline \<notin> set e"
    by (auto simp: Let_def split: if_splits)
  from d have "hd (dropWhile (\<lambda>x. x \<noteq> dollar) s') = dollar"
    using hd_dropWhile [of "\<lambda>x. x \<noteq> dollar" s'] by simp
  with d r have "dropWhile (\<lambda>x. x \<noteq> dollar) s' = dollar # r"
    by (cases "dropWhile (\<lambda>x. x \<noteq> dollar) s'") simp_all
  with e have "s' = e @ dollar # r"
    using takeWhile_dropWhile_id [of "\<lambda>x. x \<noteq> dollar" s'] by simp
  moreover have "dollar \<notin> set e" unfolding e by (auto dest: set_takeWhileD)
  ultimately show ?thesis using Cons c ne nl by simp
qed

lemma dollarSpan_found:
  assumes "x \<noteq> []" "dollar \<notin> set x" "newline \<notin> set x"
  shows "dollarSpan (dollar # x @ dollar # post) = Some (x, post)"
proof -
  have "takeWhile (\<lambda>c. c \<noteq> dollar) (x @ dollar # post) = x"
    using assms(2) by (induction x) auto
  moreover have "dropWhile (\<lambda>c. c \<noteq> dollar) (x @ dollar # post) = dollar # post"
    using assms(2) by (induction x) auto
  ultimately show ?thesis using assms by (simp add: Let_def)
qed

lemma matchInline_source:
  assumes "matchInline b s = Some (p, e, r)"
  shows "s = p @ dollar # e @ dollar # r \<and> e \<noteq> [] \<and> dollar \<notin> set e \<and> newline \<notin> set e
    \<and> (p = [] \<and> b \<or> (\<exists>c. p = [c] \<and> c \<noteq> backslash))"
proof (cases "b \<and> dollarSpan s \<noteq> None")
  case True
  with assms have "dollarSpan s = Some (e, r)" "p = []"
    by (auto simp: matchInline_def)
  with dollarSpan_source [of s e r] True show ?thesis by simp
next
  case False
  with assms obtain c s' where s: "s = c # s'" "c \<noteq> backslash" "p = [c]"
    and d: "dollarSpan s' = Some (e, r)"
    by (cases s) (auto simp: matchInline_def split: if_splits option.splits)
  with dollarSpan_source [OF d] show ?thesis by simp
qed

lemma matchInline_found:
  assumes "x \<noteq> []" "dollar \<notin> set x" "newline \<notin> set x"
  shows "matchInline True (dollar # x @ dollar # post) \<noteq> None"
    and "c \<noteq> backslash \<Longrightarrow> matchInline b (c # dollar # x @ dollar # post) \<noteq> None"
proof -
  show "matchInline True (dollar # x @ dollar # post) \<noteq> None"
    unfolding matchInline_def using dollarSpan_found [OF assms, of post] by simp
  assume "c \<noteq> backslash"
  then show "matchInline b (c # dollar # x @ dollar # post) \<noteq> None"
    unfolding matchInline_def using dollarSpan_found [OF assms, of post]
    by (simp split: option.splits)
qed

lemma nextInline_prefix: "nextInline b s = (pre, m) \<Longrightarrow> \<exists>rem. s = pre @ rem"
proof (induction s arbitrary: b pre m)
  case Nil
  then show ?case by simp
next
  case (Cons c s)
  show ?case
  proof (cases "matchInline b (c # s)")
    case None
    with Cons.prems obtain pre' where p: "nextInline False s = (pre', m)" "pre = c # pre'"
      by (auto split: prod.splits)
    from Cons.IH [OF p(1)] p(2) show ?thesis by auto
  next
    case (Some a)
    obtain p e r where a: "a = (p, e, r)" by (cases a)
    with Some Cons.prems have "pre = p" by simp
    with matchInline_source [of b "c # s" p e r] Some a show ?thesis by auto
  qed
qed

lemma nextInline_source:
  "nextInline b s = (pre, None) \<Longrightarrow> s = pre"
  "nextInline b s = (pre, Some (e, r)) \<Longrightarrow>
     s = pre @ dollar # e @ dollar # r \<and> e \<noteq> [] \<and> dollar \<notin> set e \<and> newline \<notin> set e
     \<and> (pre = [] \<and> b \<or> pre \<noteq> [] \<and> last pre \<noteq> backslash)"
proof (induction s arbitrary: b pre)
  case Nil
  { case 1 then show ?case by simp }
  { case 2 then show ?case by simp }
next
  case (Cons c s)
  { case 1
    then show ?case using Cons.IH(1) by (auto split: option.splits prod.splits) }
  { case 2
    show ?case
    proof (cases "matchInline b (c # s)")
      case None
      with 2 obtain pre' where p: "nextInline False s = (pre', Some (e, r))" "pre = c # pre'"
        by (auto split: prod.splits)
      from Cons.IH(2) [OF p(1)] p(2) show ?thesis by auto
    next
      case (Some a)
      obtain p e' r' where a: "a = (p, e', r')" by (cases a)
      with Some 2 have "matchInline b (c # s) = Some (pre, e, r)" by simp
      from matchInline_source [OF this] show ?thesis by auto
    qed }
qed

lemma nextInline_complete:
  assumes "nextInline b s = (pre, m)"
  shows "\<not> (\<exists>u c x post. pre = u @ c # dollar # x @ dollar # post
            \<and> c \<noteq> backslash \<and> x \<noteq> [] \<and> dollar \<notin> set x \<and> newline \<notin> set x)"
  using assms
proof (induction s arbitrary: b pre m)
  case Nil
  then show ?case by simp
next
  case (Cons c0 s)
  show ?case
  proof (cases "matchInline b (c0 # s)")
    case (Some a)
    obtain p e r where a: "a = (p, e, r)" by (cases a)
    with Some Cons.prems have "pre = p" by simp
    moreover from matchInline_source [of b "c0 # s" p e r] Some a have "length p \<le> 1" by auto
    ultimately show ?thesis by auto
  next
    case None
    with Cons.prems obtain pre' where p: "nextInline False s = (pre', m)" "pre = c0 # pre'"
      by (auto split: prod.splits)
    from nextInline_prefix [OF Cons.prems] obtain rem where rem: "c0 # s = pre @ rem" by blast
    show ?thesis
    proof
      assume "\<exists>u c x post. pre = u @ c # dollar # x @ dollar # post
            \<and> c \<noteq> backslash \<and> x \<noteq> [] \<and> dollar \<notin> set x \<and> newline \<notin> set x"
      then obtain u c x post where e: "pre = u @ c # dollar # x @ dollar # post"
        and c: "c \<noteq> backslash" and x: "x \<noteq> []" "dollar \<notin> set x" "newline \<notin> set x" by blast
      show False
      proof (cases u)
        case Nil
        with e rem have "c0 # s = c # dollar # x @ dollar # (post @ rem)" by simp
        with matchInline_found(2) [OF x c, of b "post @ rem"] None show False by simp
      next
        case (Cons c' u')
        with e p(2) have "pre' = u' @ c # dollar # x @ dollar # post" by simp
        with Cons.IH [OF p(1)] c x show False by blast
      qed
    qed
  qed
qed

lemma nextInline_complete_start:
  assumes "nextInline True s = (pre, m)"
  shows "\<not> (\<exists>x post. pre = dollar # x @ dollar # post
            \<and> x \<noteq> [] \<and> dollar \<notin> set x \<and> newline \<notin> set x)"
proof
  assume "\<exists>x post. pre = dollar # x @ dollar # post
            \<and> x \<noteq> [] \<and> dollar \<notin> set x \<and> newline \<notin> set x"
  then obtain x post where e: "pre = dollar # x @ dollar # post"
    and x: "x \<noteq> []" "dollar \<notin> set x" "newline \<notin> set x" by blast
  from nextInline_prefix [OF assms] obtain rem where rem: "s = pre @ rem" by blast
  with e have s: "s = dollar # x @ dollar # (post @ rem)" by simp
  with matchInline_found(1) [OF x, of "post @ rem"]
  obtain a where a: "matchInline True s = Some a" by auto
  obtain p e' r where "a = (p, e', r)" by (cases a)
  with a s assms have "pre = p" by simp
  moreover from matchInline_source [of True s p e' r] a \<open>a = (p, e', r)\<close> have "length p \<le> 1" by auto
  ultimately show False using e x by auto
qed

lemma scanInline_source: "concat (map (sourceOf [dollar]) (scanInline b s)) = s"
proof (induction b s rule: scanInline.induct)
  case (1 b s)
  obtain pre m where n: "nextInline b s = (pre, m)" by force
  show ?case
  proof (cases m)
    case None
    with n nextInline_source(1) [of b s pre] show ?thesis
      by (subst scanInline.simps) simp
  next
    case (Some a)
    obtain e r where a: "a = (e, r)" by force
    from "1.IH" [of a] n Some have "concat (map (sourceOf [dollar]) (scanInline False r)) = r"
      by (simp add: a)
    with n Some a nextInline_source(2) [of b s pre e r] show ?thesis
      by (subst scanInline.simps) simp
  qed
qed

lemma scanInline_complete:
  "Plain t \<in> set (scanInline b s) \<Longrightarrow>
     \<not> (\<exists>u c x post. t = u @ c # dollar # x @ dollar # post
           \<and> c \<noteq> backslash \<and> x \<noteq> [] \<and> dollar \<notin> set x \<and> newline \<notin> set x)"
proof (induction b s rule: scanInline.induct)
  case (1 b s)
  obtain pre m where n: "nextInline b s = (pre, m)" by force
  show ?case
  proof (cases m)
    case None
    with n "1.prems" have "t = pre" by (subst (asm) scanInline.simps) simp
    with nextInline_complete [OF n] show ?thesis by simp
  next
    case (Some a)
    with n "1.prems" have "t = pre \<or> Plain t \<in> set (scanInline False (snd a))"
      by (subst (asm) scanInline.simps) simp
    then show ?thesis
    proof
      assume "t = pre"
      with nextInline_complete [OF n] show ?thesis by simp
    next
      assume "Plain t \<in> set (scanInline False (snd a))"
      with "1.IH" [of a] n Some show ?thesis by simp
    qed
  qed
qed

lemma scanInline_head: "\<exists>t segs. scanInline b s = Plain t # segs \<and> fst (nextInline b s) = t"
  by (subst scanInline.simps) (auto split: option.splits)

lemma scanInline_complete_start:
  assumes "scanInline True s = Plain t # segs"
  shows "\<not> (\<exists>x post. t = dollar # x @ dollar # post
           \<and> x \<noteq> [] \<and> dollar \<notin> set x \<and> newline \<notin> set x)"
proof -
  obtain pre m where n: "nextInline True s = (pre, m)" by force
  with assms scanInline_head [of True s] have "t = pre" by auto
  with nextInline_complete_start [OF n] show ?thesis by simp
qed

lemma scanInline_spans:
  "Span e \<in> set (scanInline b s) \<Longrightarrow> e \<noteq> [] \<and> dollar \<notin> set e \<and> newline \<notin> set e"
proof (induction b s rule: scanInline.induct)
  case (1 b s)
  obtain pre m where n: "nextInline b s = (pre, m)" by force
  show ?case
  proof (cases m)
    case None
    with n "1.prems" show ?thesis by (subst (asm) scanInline.simps) simp
  next
    case (Some a)
    obtain e' r where a: "a = (e', r)" by force
    with n Some "1.prems" have "e = e' \<or> Span e \<in> set (scanInline False r)"
      by (subst (asm) scanInline.simps) simp
    then show ?thesis
    proof
      assume "e = e'"
      with nextInline_source(2) [of b s pre e' r] n Some a show ?thesis by simp
    next
      assume "Span e \<in> set (scanInline False r)"
      with "1.IH" [of a] n Some a show ?thesis by simp
    qed
  qed
qed

lemma scanInline_preceded:
  "scanInline b s = xs @ Plain t # Span e # ys \<Longrightarrow>
     (t = [] \<and> xs = [] \<and> b) \<or> (t \<noteq> [] \<and> last t \<noteq> backslash)"
proof (induction b s arbitrary: xs rule: scanInline.induct)
  case (1 b s)
  obtain pre m where n: "nextInline b s = (pre, m)" by force
  show ?case
  proof (cases m)
    case None
    with n have "scanInline b s = [Plain pre]" by (subst scanInline.simps) simp
    with "1.prems" show ?thesis by (cases xs) simp_all
  next
    case (Some a)
    obtain e' r where a: "a = (e', r)" by force
    with n Some have sc: "scanInline b s = Plain pre # Span e' # scanInline False r"
      by (subst scanInline.simps) simp
    show ?thesis
    proof (cases xs)
      case Nil
      with sc "1.prems" have "t = pre" "e = e'" by simp_all
      with nextInline_source(2) [of b s pre e' r] n Some a Nil show ?thesis by auto
    next
      case (Cons x xs')
      with sc "1.prems" have "xs' @ Plain t # Span e # ys = Span e' # scanInline False r" by simp
      then obtain xs'' where "xs' = Span e' # xs''"
        and "scanInline False r = xs'' @ Plain t # Span e # ys"
        by (cases xs') simp_all
      with "1.IH" [of a xs''] n Some a show ?thesis by simp
    qed
  qed
qed

lemma renderSegments_None:
  "renderSegments f segs = None \<longleftrightarrow> (\<exists>e. Span e \<in> set segs \<and> f e = None)"
proof (induction segs)
  case Nil
  then show ?case by simp
next
  case (Cons seg segs)
  then show ?case by (cases seg) (auto split: option.splits)
qed

lemma renderSegments_Some:
  "renderSegments f segs = Some r \<Longrightarrow> r = concat (map (shown f) segs)"
proof (induction segs arbitrary: r)
  case Nil
  then show ?case by simp
next
  case (Cons seg segs)
  then show ?case by (cases seg) (auto split: option.splits)
qed

lemma blockMarkup_None: "blockMarkup env e = None \<longleftrightarrow> katex_render env (trim e) True = None"
  by (simp add: blockMarkup_def)

lemma inlineMarkup_None: "inlineMarkup env e = None \<longleftrightarrow> katex_render env (trim e) False = None"
  by (simp add: inlineMarkup_def)

text \<open>
  The two scans are determined by the following steps, and by nothing else.
  The first scan: where the text is \<open>p\<close>, two dollars, an expression \<open>e\<close> of at least
  one character, two dollars and \<open>r\<close>, no such span starts at an earlier offset than
  \<open>e\<close>'s, and no shorter expression from the same opening dollars is followed by two
  dollars, the pieces are \<open>p\<close>, the span \<open>e\<close> and the pieces of \<open>r\<close>; a text with no such
  span is one piece.
\<close>

lemma untilDollars_shortest:
  assumes "untilDollars s = Some (q, r)" "s = q' @ ''$$'' @ r'"
  shows "length q \<le> length q'"
  using assms
proof (induction s arbitrary: q r q' rule: untilDollars.induct)
  case (1 c d s)
  show ?case
  proof (cases "c = dollar \<and> d = dollar")
    case True
    with "1.prems" show ?thesis by simp
  next
    case False
    with "1.prems"(1) obtain q1 where u: "untilDollars (d # s) = Some (q1, r)" and q: "q = c # q1"
      by auto
    from False "1.prems"(2) obtain q2 where q': "q' = c # q2" and s: "d # s = q2 @ ''$$'' @ r'"
      by (cases q') auto
    from "1.IH" [OF False u s] q q' show ?thesis by simp
  qed
qed simp_all

lemma untilDollars_step:
  assumes "\<forall>q' r'. q @ ''$$'' @ r = q' @ ''$$'' @ r' \<longrightarrow> length q \<le> length q'"
  shows "untilDollars (q @ ''$$'' @ r) = Some (q, r)"
proof -
  from untilDollars_found [of q r] obtain q1 r1 where u: "untilDollars (q @ ''$$'' @ r) = Some (q1, r1)"
    by auto
  from untilDollars_source [OF u] have s: "q @ ''$$'' @ r = q1 @ ''$$'' @ r1" .
  from untilDollars_shortest [OF u refl] have "length q1 \<le> length q" .
  moreover from assms s have "length q \<le> length q1" by blast
  ultimately have "length q = length q1" by simp
  with s have "q = q1" "r = r1" by simp_all
  with u show ?thesis by simp
qed

lemma matchBlock_step:
  assumes "e \<noteq> []"
    and "\<forall>e' r'. e' \<noteq> [] \<and> e @ ''$$'' @ r = e' @ ''$$'' @ r' \<longrightarrow> length e \<le> length e'"
  shows "matchBlock (''$$'' @ e @ ''$$'' @ r) = Some (e, r)"
proof -
  from assms(1) obtain x q where e: "e = x # q" by (cases e) auto
  have "\<forall>q' r'. q @ ''$$'' @ r = q' @ ''$$'' @ r' \<longrightarrow> length q \<le> length q'"
  proof (intro allI impI)
    fix q' r'
    assume "q @ ''$$'' @ r = q' @ ''$$'' @ r'"
    then have "e @ ''$$'' @ r = (x # q') @ ''$$'' @ r'" by (simp add: e)
    with assms(2) have "length e \<le> length (x # q')" by blast
    then show "length q \<le> length q'" by (simp add: e)
  qed
  from untilDollars_step [OF this] show ?thesis by (simp add: e)
qed

lemma matchBlock_None_iff:
  "matchBlock t = None \<longleftrightarrow> \<not> (\<exists>e r. e \<noteq> [] \<and> t = ''$$'' @ e @ ''$$'' @ r)"
proof
  assume n: "matchBlock t = None"
  show "\<not> (\<exists>e r. e \<noteq> [] \<and> t = ''$$'' @ e @ ''$$'' @ r)"
  proof
    assume "\<exists>e r. e \<noteq> [] \<and> t = ''$$'' @ e @ ''$$'' @ r"
    then obtain e r where e: "e \<noteq> []" and t: "t = ''$$'' @ e @ ''$$'' @ r" by blast
    from e obtain x q where "e = x # q" by (cases e) auto
    with t matchBlock_found [of x q r] n show False by simp
  qed
next
  assume n: "\<not> (\<exists>e r. e \<noteq> [] \<and> t = ''$$'' @ e @ ''$$'' @ r)"
  show "matchBlock t = None"
  proof (cases "matchBlock t")
    case None
    then show ?thesis .
  next
    case (Some a)
    obtain e r where "a = (e, r)" by (cases a)
    with Some matchBlock_source [of t e r] n show ?thesis by blast
  qed
qed

lemma nextBlock_step:
  assumes "\<forall>k<length p. matchBlock (drop k (p @ t)) = None" "matchBlock t = Some m"
  shows "nextBlock (p @ t) = (p, Some m)"
  using assms
proof (induction p)
  case Nil
  then show ?case by (cases t) simp_all
next
  case (Cons c p)
  from Cons.prems(1) have 0: "matchBlock (c # p @ t) = None" by force
  have "\<forall>k<length p. matchBlock (drop k (p @ t)) = None"
  proof (intro allI impI)
    fix k assume "k < length p"
    then have "Suc k < length (c # p)" by simp
    with Cons.prems(1) have "matchBlock (drop (Suc k) ((c # p) @ t)) = None" by blast
    then show "matchBlock (drop k (p @ t)) = None" by simp
  qed
  from Cons.IH [OF this Cons.prems(2)] 0 show ?case by simp
qed

lemma nextBlock_none:
  assumes "\<forall>k. matchBlock (drop k s) = None"
  shows "nextBlock s = (s, None)"
  using assms
proof (induction s)
  case Nil
  then show ?case by simp
next
  case (Cons c s)
  from Cons.prems have 0: "matchBlock (c # s) = None" by (metis drop0)
  have "\<forall>k. matchBlock (drop k s) = None"
  proof
    fix k
    from Cons.prems have "matchBlock (drop (Suc k) (c # s)) = None" by blast
    then show "matchBlock (drop k s) = None" by simp
  qed
  from Cons.IH [OF this] 0 show ?case by simp
qed

lemma scanBlock_step:
  assumes "s = p @ ''$$'' @ e @ ''$$'' @ r" "e \<noteq> []"
    and "\<forall>k<length p. \<not> (\<exists>e' r'. e' \<noteq> [] \<and> drop k s = ''$$'' @ e' @ ''$$'' @ r')"
    and "\<forall>e' r'. e' \<noteq> [] \<and> e @ ''$$'' @ r = e' @ ''$$'' @ r' \<longrightarrow> length e \<le> length e'"
  shows "scanBlock s = Plain p # Span e # scanBlock r"
proof -
  have m: "matchBlock (''$$'' @ e @ ''$$'' @ r) = Some (e, r)"
    using assms(2,4) by (rule matchBlock_step)
  have "\<forall>k<length p. matchBlock (drop k (p @ ''$$'' @ e @ ''$$'' @ r)) = None"
    using assms(3) unfolding assms(1) matchBlock_None_iff by blast
  from nextBlock_step [OF this m] have "nextBlock s = (p, Some (e, r))" by (simp add: assms(1))
  then show ?thesis by (subst scanBlock.simps) simp
qed

lemma scanBlock_none:
  assumes "\<not> (\<exists>p e r. e \<noteq> [] \<and> s = p @ ''$$'' @ e @ ''$$'' @ r)"
  shows "scanBlock s = [Plain s]"
proof -
  have "\<forall>k. matchBlock (drop k s) = None"
  proof
    fix k
    show "matchBlock (drop k s) = None"
      unfolding matchBlock_None_iff
    proof
      assume "\<exists>e r. e \<noteq> [] \<and> drop k s = ''$$'' @ e @ ''$$'' @ r"
      then obtain e r where "e \<noteq> []" "drop k s = ''$$'' @ e @ ''$$'' @ r" by blast
      then have "e \<noteq> [] \<and> s = take k s @ ''$$'' @ e @ ''$$'' @ r"
        by (metis append_take_drop_id)
      with assms show False by blast
    qed
  qed
  from nextBlock_none [OF this] show ?thesis by (subst scanBlock.simps) simp
qed

text \<open>
  The second scan (\<open>b\<close> says that the text starts at index 0 of the input): a span that
  starts the input is taken; else the leftmost span after a character that is not a
  backslash is taken with that character, which stays in the text; the scan goes on
  after the closing dollar, no longer at index 0; a text with neither is one piece.
\<close>

lemma dollarSpan_None_iff:
  "dollarSpan t = None \<longleftrightarrow>
     \<not> (\<exists>e r. t = dollar # e @ dollar # r \<and> e \<noteq> [] \<and> dollar \<notin> set e \<and> newline \<notin> set e)"
proof
  assume n: "dollarSpan t = None"
  show "\<not> (\<exists>e r. t = dollar # e @ dollar # r \<and> e \<noteq> [] \<and> dollar \<notin> set e \<and> newline \<notin> set e)"
  proof
    assume "\<exists>e r. t = dollar # e @ dollar # r \<and> e \<noteq> [] \<and> dollar \<notin> set e \<and> newline \<notin> set e"
    then obtain e r where "t = dollar # e @ dollar # r" "e \<noteq> []" "dollar \<notin> set e" "newline \<notin> set e"
      by blast
    with dollarSpan_found [of e r] n show False by simp
  qed
next
  assume n: "\<not> (\<exists>e r. t = dollar # e @ dollar # r \<and> e \<noteq> [] \<and> dollar \<notin> set e \<and> newline \<notin> set e)"
  show "dollarSpan t = None"
  proof (cases "dollarSpan t")
    case None
    then show ?thesis .
  next
    case (Some a)
    obtain e r where "a = (e, r)" by (cases a)
    with Some dollarSpan_source [of t e r] n show ?thesis by blast
  qed
qed

lemma matchInline_None_iff:
  "matchInline b t = None \<longleftrightarrow>
     \<not> (b \<and> dollarSpan t \<noteq> None) \<and> \<not> (\<exists>c t'. t = c # t' \<and> c \<noteq> backslash \<and> dollarSpan t' \<noteq> None)"
proof (cases t)
  case Nil
  then show ?thesis by (simp add: matchInline_def split: if_splits)
next
  case (Cons a t')
  show ?thesis
  proof (cases "if b then dollarSpan t else None")
    case None
    then have "matchInline b t
        = (if a \<noteq> backslash
           then map_option (\<lambda>(expr, rest). ([a], expr, rest)) (dollarSpan t') else None)"
      unfolding matchInline_def None by (simp add: Cons)
    then have "matchInline b t = None \<longleftrightarrow> \<not> (a \<noteq> backslash \<and> dollarSpan t' \<noteq> None)"
      by (cases "dollarSpan t'") (simp_all del: dollarSpan.simps)
    moreover from None have "\<not> (b \<and> dollarSpan t \<noteq> None)"
      by (cases b) (simp_all del: dollarSpan.simps)
    ultimately show ?thesis using Cons by (simp del: dollarSpan.simps)
  next
    case (Some m)
    then have "matchInline b t \<noteq> None"
      unfolding matchInline_def Some by (simp split: prod.splits)
    moreover from Some have "b \<and> dollarSpan t \<noteq> None" by (auto split: if_splits)
    ultimately show ?thesis by simp
  qed
qed

lemma matchInline_start:
  assumes "e \<noteq> []" "dollar \<notin> set e" "newline \<notin> set e"
  shows "matchInline True (dollar # e @ dollar # r) = Some ([], e, r)"
  using dollarSpan_found [OF assms, of r] by (simp add: matchInline_def)

lemma matchInline_prefixed:
  assumes "e \<noteq> []" "dollar \<notin> set e" "newline \<notin> set e" "c \<noteq> backslash"
    and "\<not> (b \<and> dollarSpan (c # dollar # e @ dollar # r) \<noteq> None)"
  shows "matchInline b (c # dollar # e @ dollar # r) = Some ([c], e, r)"
proof -
  have "(if b then dollarSpan (c # dollar # e @ dollar # r) else None) = None"
    using assms(5) by auto
  then show ?thesis
    using dollarSpan_found [OF assms(1-3), of r] assms(4)
    by (simp add: matchInline_def del: dollarSpan.simps)
qed

lemma nextInline_step:
  assumes "\<forall>k<length p. matchInline (b \<and> k = 0) (drop k (p @ t)) = None"
    and "matchInline (b \<and> p = []) t = Some (pfx, e, r)"
  shows "nextInline b (p @ t) = (p @ pfx, Some (e, r))"
  using assms
proof (induction p arbitrary: b)
  case Nil
  show ?case
  proof (cases t)
    case Nil
    with Nil.prems(2) show ?thesis by (simp add: matchInline_def split: if_splits)
  next
    case (Cons c t')
    with Nil.prems(2) show ?thesis by simp
  qed
next
  case (Cons c p)
  from Cons.prems(1) have 0: "matchInline b (c # p @ t) = None" by force
  have "\<forall>k<length p. matchInline (False \<and> k = 0) (drop k (p @ t)) = None"
  proof (intro allI impI)
    fix k assume "k < length p"
    then have "Suc k < length (c # p)" by simp
    with Cons.prems(1) have "matchInline (b \<and> Suc k = 0) (drop (Suc k) ((c # p) @ t)) = None"
      by blast
    then show "matchInline (False \<and> k = 0) (drop k (p @ t)) = None" by simp
  qed
  moreover from Cons.prems(2) have "matchInline (False \<and> p = []) t = Some (pfx, e, r)" by simp
  ultimately have "nextInline False (p @ t) = (p @ pfx, Some (e, r))" by (rule Cons.IH)
  with 0 show ?case by simp
qed

lemma nextInline_none:
  assumes "\<forall>k. matchInline (b \<and> k = 0) (drop k s) = None"
  shows "nextInline b s = (s, None)"
  using assms
proof (induction s arbitrary: b)
  case Nil
  then show ?case by simp
next
  case (Cons c s)
  from Cons.prems have "matchInline (b \<and> (0::nat) = 0) (drop 0 (c # s)) = None" by blast
  then have 0: "matchInline b (c # s) = None" by simp
  have "\<forall>k. matchInline (False \<and> k = 0) (drop k s) = None"
  proof
    fix k
    from Cons.prems have "matchInline (b \<and> Suc k = 0) (drop (Suc k) (c # s)) = None" by blast
    then show "matchInline (False \<and> k = 0) (drop k s) = None" by simp
  qed
  from Cons.IH [OF this] 0 show ?case by simp
qed

lemma scanInline_start:
  assumes "e \<noteq> []" "dollar \<notin> set e" "newline \<notin> set e"
  shows "scanInline True (dollar # e @ dollar # r) = Plain [] # Span e # scanInline False r"
proof -
  have "nextInline True (dollar # e @ dollar # r) = ([], Some (e, r))"
    using matchInline_start [OF assms, of r] by simp
  then show ?thesis by (subst scanInline.simps) simp
qed

lemma scanInline_step:
  assumes s: "s = p @ c # dollar # e @ dollar # r"
    and c: "c \<noteq> backslash" and e: "e \<noteq> []" "dollar \<notin> set e" "newline \<notin> set e"
    and start: "\<not> (b \<and> (\<exists>e' r'. s = dollar # e' @ dollar # r'
                    \<and> e' \<noteq> [] \<and> dollar \<notin> set e' \<and> newline \<notin> set e'))"
    and left: "\<forall>k<length p. \<not> (\<exists>c' e' r'. drop k s = c' # dollar # e' @ dollar # r'
                    \<and> c' \<noteq> backslash \<and> e' \<noteq> [] \<and> dollar \<notin> set e' \<and> newline \<notin> set e')"
  shows "scanInline b s = Plain (p @ [c]) # Span e # scanInline False r"
proof -
  define t where "t = c # dollar # e @ dollar # r"
  have st: "s = p @ t" by (simp add: s t_def)
  have ds: "\<not> (b \<and> dollarSpan s \<noteq> None)"
    using start unfolding dollarSpan_None_iff by blast
  have "\<not> ((b \<and> p = []) \<and> dollarSpan t \<noteq> None)"
    using ds st by auto
  then have m: "matchInline (b \<and> p = []) t = Some ([c], e, r)"
    unfolding t_def using e c by (intro matchInline_prefixed) simp_all
  have "\<forall>k<length p. matchInline (b \<and> k = 0) (drop k (p @ t)) = None"
  proof (intro allI impI)
    fix k assume k: "k < length p"
    have 1: "\<not> ((b \<and> k = 0) \<and> dollarSpan (drop k s) \<noteq> None)"
      using ds by auto
    have 2: "\<not> (\<exists>c' t'. drop k s = c' # t' \<and> c' \<noteq> backslash \<and> dollarSpan t' \<noteq> None)"
    proof
      assume "\<exists>c' t'. drop k s = c' # t' \<and> c' \<noteq> backslash \<and> dollarSpan t' \<noteq> None"
      then obtain c' t' where d: "drop k s = c' # t'" "c' \<noteq> backslash" "dollarSpan t' \<noteq> None"
        by blast
      from d(3) obtain e' r' where "t' = dollar # e' @ dollar # r'"
        "e' \<noteq> []" "dollar \<notin> set e'" "newline \<notin> set e'"
        unfolding dollarSpan_None_iff by blast
      with d left k show False by blast
    qed
    from 1 2 show "matchInline (b \<and> k = 0) (drop k (p @ t)) = None"
      unfolding matchInline_None_iff st by blast
  qed
  from nextInline_step [OF this m] have "nextInline b s = (p @ [c], Some (e, r))" by (simp add: st)
  then show ?thesis by (subst scanInline.simps) simp
qed

lemma scanInline_none:
  assumes start: "\<not> (b \<and> (\<exists>e r. s = dollar # e @ dollar # r
                    \<and> e \<noteq> [] \<and> dollar \<notin> set e \<and> newline \<notin> set e))"
    and none: "\<not> (\<exists>p c e r. s = p @ c # dollar # e @ dollar # r
                    \<and> c \<noteq> backslash \<and> e \<noteq> [] \<and> dollar \<notin> set e \<and> newline \<notin> set e)"
  shows "scanInline b s = [Plain s]"
proof -
  have ds: "\<not> (b \<and> dollarSpan s \<noteq> None)"
    using start unfolding dollarSpan_None_iff by blast
  have "\<forall>k. matchInline (b \<and> k = 0) (drop k s) = None"
  proof
    fix k
    have 1: "\<not> ((b \<and> k = 0) \<and> dollarSpan (drop k s) \<noteq> None)"
      using ds by auto
    have 2: "\<not> (\<exists>c' t'. drop k s = c' # t' \<and> c' \<noteq> backslash \<and> dollarSpan t' \<noteq> None)"
    proof
      assume "\<exists>c' t'. drop k s = c' # t' \<and> c' \<noteq> backslash \<and> dollarSpan t' \<noteq> None"
      then obtain c' t' where d: "drop k s = c' # t'" "c' \<noteq> backslash" "dollarSpan t' \<noteq> None"
        by blast
      from d(3) obtain e' r' where t': "t' = dollar # e' @ dollar # r'"
        "e' \<noteq> []" "dollar \<notin> set e'" "newline \<notin> set e'"
        unfolding dollarSpan_None_iff by blast
      from d(1) t'(1) have "s = take k s @ c' # dollar # e' @ dollar # r'"
        by (metis append_take_drop_id)
      with d(2) t'(2-4) none show False by blast
    qed
    from 1 2 show "matchInline (b \<and> k = 0) (drop k s) = None"
      unfolding matchInline_None_iff by blast
  qed
  from nextInline_none [OF this] show ?thesis by (subst scanInline.simps) simp
qed

text \<open>
  Claim C6 as the code has it. The first scan cuts the input into text and
  double-dollar spans and loses nothing; each span has an expression of at least one
  character, and no text between the spans still holds a double-dollar span with such
  an expression. Each step of it takes the leftmost span, with the shortest expression
  from its opening dollars, and goes on after the closing dollars; a text without a
  span stays one piece. A span becomes the display-mode markup of its trimmed
  expression. The second scan does the same to the result for single-dollar spans whose
  expression has at least one character, no dollar and no newline: none is left in a
  text between the spans after a character that is not a backslash, nor at the very
  start of the text; each span taken is at the very start or follows a character that
  is not a backslash. A step of it takes the span that starts the input, or else the
  leftmost span after a character that is not a backslash, and goes on after the
  closing dollar, where it is no longer at the start: the character before the next
  span has to come after that closing dollar. A span becomes the inline-mode markup.
  When no rendering call throws, the result is the text of the second scan with the
  spans replaced; when one throws, the result is the input.
\<close>

theorem renderMath_scans:
  assumes "block = concat (map (shown (blockMarkup env)) (scanBlock html))"
  shows \<open>concat (map (sourceOf ''$$'') (scanBlock html)) = html
    \<and> (\<forall>t. Plain t \<in> set (scanBlock html) \<longrightarrow>
          \<not> (\<exists>u x inner post. t = u @ ''$$'' @ x # inner @ ''$$'' @ post))
    \<and> (\<forall>e. Span e \<in> set (scanBlock html) \<longrightarrow> e \<noteq> [])
    \<and> (\<forall>s p e r. s = p @ ''$$'' @ e @ ''$$'' @ r \<and> e \<noteq> []
          \<and> (\<forall>k<length p. \<not> (\<exists>e' r'. e' \<noteq> [] \<and> drop k s = ''$$'' @ e' @ ''$$'' @ r'))
          \<and> (\<forall>e' r'. e' \<noteq> [] \<and> e @ ''$$'' @ r = e' @ ''$$'' @ r' \<longrightarrow> length e \<le> length e')
          \<longrightarrow> scanBlock s = Plain p # Span e # scanBlock r)
    \<and> (\<forall>s. \<not> (\<exists>p e r. e \<noteq> [] \<and> s = p @ ''$$'' @ e @ ''$$'' @ r) \<longrightarrow> scanBlock s = [Plain s])
    \<and> (\<forall>e k. katex_render env (trim e) True = Some k \<longrightarrow>
          shown (blockMarkup env) (Span e) = ''<div class="math-block">'' @ k @ ''</div>'')
    \<and> concat (map (sourceOf [dollar]) (scanInline True block)) = block
    \<and> (\<forall>t. Plain t \<in> set (scanInline True block) \<longrightarrow>
          \<not> (\<exists>u c x post. t = u @ c # dollar # x @ dollar # post
                \<and> c \<noteq> backslash \<and> x \<noteq> [] \<and> dollar \<notin> set x \<and> newline \<notin> set x))
    \<and> (\<forall>t segs. scanInline True block = Plain t # segs \<longrightarrow>
          \<not> (\<exists>x post. t = dollar # x @ dollar # post
                \<and> x \<noteq> [] \<and> dollar \<notin> set x \<and> newline \<notin> set x))
    \<and> (\<forall>e. Span e \<in> set (scanInline True block) \<longrightarrow>
          e \<noteq> [] \<and> dollar \<notin> set e \<and> newline \<notin> set e)
    \<and> (\<forall>xs t e ys. scanInline True block = xs @ Plain t # Span e # ys \<longrightarrow>
          (t = [] \<and> xs = []) \<or> (t \<noteq> [] \<and> last t \<noteq> backslash))
    \<and> (\<forall>e r. e \<noteq> [] \<and> dollar \<notin> set e \<and> newline \<notin> set e \<longrightarrow>
          scanInline True (dollar # e @ dollar # r) = Plain [] # Span e # scanInline False r)
    \<and> (\<forall>b s p c e r. s = p @ c # dollar # e @ dollar # r
          \<and> c \<noteq> backslash \<and> e \<noteq> [] \<and> dollar \<notin> set e \<and> newline \<notin> set e
          \<and> \<not> (b \<and> (\<exists>e' r'. s = dollar # e' @ dollar # r'
                  \<and> e' \<noteq> [] \<and> dollar \<notin> set e' \<and> newline \<notin> set e'))
          \<and> (\<forall>k<length p. \<not> (\<exists>c' e' r'. drop k s = c' # dollar # e' @ dollar # r'
                  \<and> c' \<noteq> backslash \<and> e' \<noteq> [] \<and> dollar \<notin> set e' \<and> newline \<notin> set e'))
          \<longrightarrow> scanInline b s = Plain (p @ [c]) # Span e # scanInline False r)
    \<and> (\<forall>b s. \<not> (b \<and> (\<exists>e r. s = dollar # e @ dollar # r
                  \<and> e \<noteq> [] \<and> dollar \<notin> set e \<and> newline \<notin> set e))
          \<and> \<not> (\<exists>p c e r. s = p @ c # dollar # e @ dollar # r
                  \<and> c \<noteq> backslash \<and> e \<noteq> [] \<and> dollar \<notin> set e \<and> newline \<notin> set e)
          \<longrightarrow> scanInline b s = [Plain s])
    \<and> (\<forall>e k. katex_render env (trim e) False = Some k \<longrightarrow>
          shown (inlineMarkup env) (Span e) = ''<span class="math-inline">'' @ k @ ''</span>'')
    \<and> (\<forall>t. shown (blockMarkup env) (Plain t) = t \<and> shown (inlineMarkup env) (Plain t) = t)
    \<and> ((\<forall>e. Span e \<in> set (scanBlock html) \<longrightarrow> katex_render env (trim e) True \<noteq> None)
         \<and> (\<forall>e. Span e \<in> set (scanInline True block) \<longrightarrow>
               katex_render env (trim e) False \<noteq> None) \<longrightarrow>
        renderMath env html = concat (map (shown (inlineMarkup env)) (scanInline True block)))
    \<and> ((\<exists>e. Span e \<in> set (scanBlock html) \<and> katex_render env (trim e) True = None)
         \<or> (\<exists>e. Span e \<in> set (scanInline True block) \<and> katex_render env (trim e) False = None)
        \<longrightarrow> renderMath env html = html)\<close>
proof -
  have 1: "concat (map (sourceOf ''$$'') (scanBlock html)) = html"
    by (rule scanBlock_source)
  have 2: "\<forall>t. Plain t \<in> set (scanBlock html) \<longrightarrow>
          \<not> (\<exists>u x inner post. t = u @ ''$$'' @ x # inner @ ''$$'' @ post)"
    using scanBlock_complete by blast
  have 3: "\<forall>e. Span e \<in> set (scanBlock html) \<longrightarrow> e \<noteq> []"
    using scanBlock_spans by blast
  have b1: "\<forall>s p e r. s = p @ ''$$'' @ e @ ''$$'' @ r \<and> e \<noteq> []
          \<and> (\<forall>k<length p. \<not> (\<exists>e' r'. e' \<noteq> [] \<and> drop k s = ''$$'' @ e' @ ''$$'' @ r'))
          \<and> (\<forall>e' r'. e' \<noteq> [] \<and> e @ ''$$'' @ r = e' @ ''$$'' @ r' \<longrightarrow> length e \<le> length e')
          \<longrightarrow> scanBlock s = Plain p # Span e # scanBlock r"
  proof (intro allI impI)
    fix s p e r
    assume a: "s = p @ ''$$'' @ e @ ''$$'' @ r \<and> e \<noteq> []
          \<and> (\<forall>k<length p. \<not> (\<exists>e' r'. e' \<noteq> [] \<and> drop k s = ''$$'' @ e' @ ''$$'' @ r'))
          \<and> (\<forall>e' r'. e' \<noteq> [] \<and> e @ ''$$'' @ r = e' @ ''$$'' @ r' \<longrightarrow> length e \<le> length e')"
    show "scanBlock s = Plain p # Span e # scanBlock r"
      by (rule scanBlock_step) (use a in blast)+
  qed
  have b2: "\<forall>s. \<not> (\<exists>p e r. e \<noteq> [] \<and> s = p @ ''$$'' @ e @ ''$$'' @ r) \<longrightarrow> scanBlock s = [Plain s]"
    using scanBlock_none by blast
  have 4: \<open>\<forall>e k. katex_render env (trim e) True = Some k \<longrightarrow>
          shown (blockMarkup env) (Span e) = ''<div class="math-block">'' @ k @ ''</div>''\<close>
    by (simp add: blockMarkup_def)
  have 5: "concat (map (sourceOf [dollar]) (scanInline True block)) = block"
    by (rule scanInline_source)
  have 6: "\<forall>t. Plain t \<in> set (scanInline True block) \<longrightarrow>
          \<not> (\<exists>u c x post. t = u @ c # dollar # x @ dollar # post
                \<and> c \<noteq> backslash \<and> x \<noteq> [] \<and> dollar \<notin> set x \<and> newline \<notin> set x)"
    using scanInline_complete by blast
  have 7: "\<forall>t segs. scanInline True block = Plain t # segs \<longrightarrow>
          \<not> (\<exists>x post. t = dollar # x @ dollar # post
                \<and> x \<noteq> [] \<and> dollar \<notin> set x \<and> newline \<notin> set x)"
    using scanInline_complete_start by blast
  have 8: "\<forall>e. Span e \<in> set (scanInline True block) \<longrightarrow>
          e \<noteq> [] \<and> dollar \<notin> set e \<and> newline \<notin> set e"
    using scanInline_spans by blast
  have 9: "\<forall>xs t e ys. scanInline True block = xs @ Plain t # Span e # ys \<longrightarrow>
          (t = [] \<and> xs = []) \<or> (t \<noteq> [] \<and> last t \<noteq> backslash)"
    using scanInline_preceded by blast
  have i1: "\<forall>e r. e \<noteq> [] \<and> dollar \<notin> set e \<and> newline \<notin> set e \<longrightarrow>
          scanInline True (dollar # e @ dollar # r) = Plain [] # Span e # scanInline False r"
    using scanInline_start by blast
  have i2: "\<forall>b s p c e r. s = p @ c # dollar # e @ dollar # r
          \<and> c \<noteq> backslash \<and> e \<noteq> [] \<and> dollar \<notin> set e \<and> newline \<notin> set e
          \<and> \<not> (b \<and> (\<exists>e' r'. s = dollar # e' @ dollar # r'
                  \<and> e' \<noteq> [] \<and> dollar \<notin> set e' \<and> newline \<notin> set e'))
          \<and> (\<forall>k<length p. \<not> (\<exists>c' e' r'. drop k s = c' # dollar # e' @ dollar # r'
                  \<and> c' \<noteq> backslash \<and> e' \<noteq> [] \<and> dollar \<notin> set e' \<and> newline \<notin> set e'))
          \<longrightarrow> scanInline b s = Plain (p @ [c]) # Span e # scanInline False r"
  proof (intro allI impI)
    fix b s p c e r
    assume a: "s = p @ c # dollar # e @ dollar # r
          \<and> c \<noteq> backslash \<and> e \<noteq> [] \<and> dollar \<notin> set e \<and> newline \<notin> set e
          \<and> \<not> (b \<and> (\<exists>e' r'. s = dollar # e' @ dollar # r'
                  \<and> e' \<noteq> [] \<and> dollar \<notin> set e' \<and> newline \<notin> set e'))
          \<and> (\<forall>k<length p. \<not> (\<exists>c' e' r'. drop k s = c' # dollar # e' @ dollar # r'
                  \<and> c' \<noteq> backslash \<and> e' \<noteq> [] \<and> dollar \<notin> set e' \<and> newline \<notin> set e'))"
    show "scanInline b s = Plain (p @ [c]) # Span e # scanInline False r"
      by (rule scanInline_step) (use a in blast)+
  qed
  have i3: "\<forall>b s. \<not> (b \<and> (\<exists>e r. s = dollar # e @ dollar # r
                  \<and> e \<noteq> [] \<and> dollar \<notin> set e \<and> newline \<notin> set e))
          \<and> \<not> (\<exists>p c e r. s = p @ c # dollar # e @ dollar # r
                  \<and> c \<noteq> backslash \<and> e \<noteq> [] \<and> dollar \<notin> set e \<and> newline \<notin> set e)
          \<longrightarrow> scanInline b s = [Plain s]"
    using scanInline_none by blast
  have 10: \<open>\<forall>e k. katex_render env (trim e) False = Some k \<longrightarrow>
          shown (inlineMarkup env) (Span e) = ''<span class="math-inline">'' @ k @ ''</span>''\<close>
    by (simp add: inlineMarkup_def)
  have pl: "\<forall>t. shown (blockMarkup env) (Plain t) = t \<and> shown (inlineMarkup env) (Plain t) = t"
    by simp
  have 11: "(\<forall>e. Span e \<in> set (scanBlock html) \<longrightarrow> katex_render env (trim e) True \<noteq> None)
         \<and> (\<forall>e. Span e \<in> set (scanInline True block) \<longrightarrow>
               katex_render env (trim e) False \<noteq> None) \<longrightarrow>
        renderMath env html = concat (map (shown (inlineMarkup env)) (scanInline True block))"
  proof
    assume bi: "(\<forall>e. Span e \<in> set (scanBlock html) \<longrightarrow> katex_render env (trim e) True \<noteq> None)
         \<and> (\<forall>e. Span e \<in> set (scanInline True block) \<longrightarrow>
               katex_render env (trim e) False \<noteq> None)"
    then have "renderSegments (blockMarkup env) (scanBlock html) \<noteq> None"
      by (simp add: renderSegments_None blockMarkup_None)
    then obtain r where r: "renderSegments (blockMarkup env) (scanBlock html) = Some r" by auto
    from renderSegments_Some [OF r] assms have rb: "r = block" by simp
    from bi have "renderSegments (inlineMarkup env) (scanInline True block) \<noteq> None"
      by (simp add: renderSegments_None inlineMarkup_None)
    then obtain q where q: "renderSegments (inlineMarkup env) (scanInline True block) = Some q"
      by auto
    from renderSegments_Some [OF q] r rb q
    show "renderMath env html = concat (map (shown (inlineMarkup env)) (scanInline True block))"
      by (simp add: renderMath_def)
  qed
  have 12: "(\<exists>e. Span e \<in> set (scanBlock html) \<and> katex_render env (trim e) True = None)
         \<or> (\<exists>e. Span e \<in> set (scanInline True block) \<and> katex_render env (trim e) False = None)
        \<longrightarrow> renderMath env html = html"
  proof
    assume that: "(\<exists>e. Span e \<in> set (scanBlock html) \<and> katex_render env (trim e) True = None)
         \<or> (\<exists>e. Span e \<in> set (scanInline True block) \<and> katex_render env (trim e) False = None)"
    show "renderMath env html = html"
    proof (cases "renderSegments (blockMarkup env) (scanBlock html)")
      case None
      then show ?thesis by (simp add: renderMath_def)
    next
      case (Some r)
      from renderSegments_Some [OF Some] assms have rb: "r = block" by simp
      from Some have "\<not> (\<exists>e. Span e \<in> set (scanBlock html) \<and> katex_render env (trim e) True = None)"
        using renderSegments_None [of "blockMarkup env" "scanBlock html"]
        by (simp add: blockMarkup_None)
      with that have "\<exists>e. Span e \<in> set (scanInline True block) \<and> katex_render env (trim e) False = None"
        by blast
      then have "renderSegments (inlineMarkup env) (scanInline True block) = None"
        by (simp add: renderSegments_None inlineMarkup_None)
      with Some rb show ?thesis by (simp add: renderMath_def)
    qed
  qed
  show ?thesis
    by (intro conjI) (rule 1 2 3 b1 b2 4 5 6 7 8 9 i1 i2 i3 10 pl 11 12)+
qed

text \<open>
  Claim C6 fails as stated. In \<open>$a$$b$\<close> there is no double-dollar span, and two
  single-dollar spans, neither after a backslash nor with a newline. The match of the
  first ends at its closing dollar; a second match would need a character before its
  opening dollar that is not part of the first, so \<open>$b$\<close> stays as it is.
\<close>

theorem adjacent_inline_span_is_left:
  \<open>scanBlock ''$a$$b$'' = [Plain ''$a$$b$'']
   \<and> scanInline True ''$a$$b$'' = [Plain [], Span ''a'', Plain ''$b$'']
   \<and> renderMath textBrowser ''$a$$b$''
       = ''<span class="math-inline"><span class="katex">a</span></span>$b$''\<close>
  by code_simp

lemma render_example:
  \<open>renderMath textBrowser ''see $$ x $$ and $y$''
     = ''see <div class="math-block"><span class="katex">x</span></div> and <span class="math-inline"><span class="katex">y</span></span>''\<close>
  by code_simp

lemma render_fallback:
  "renderMath (textBrowser\<lparr> katex_render := (\<lambda>e d. if d then None else Some e) \<rparr>)
     ''see $$ x $$ and $y$'' = ''see $$ x $$ and $y$''"
  by code_simp

lemma span_example: "Span '' x '' \<in> set (scanBlock ''see $$ x $$ and $y$'')"
  by code_simp

text \<open>
  The steps of the two scans on texts with two spans each; a text with one span of
  each kind, rendered; and the same text with a renderer that throws in display mode,
  returned as it is.
\<close>

theorem renderMath_scans_witness:
  \<open>scanBlock ''$$a$$b$$c'' = [Plain [], Span ''a'', Plain ''b$$c'']
   \<and> scanInline True ''$a$ x$b$'' = [Plain [], Span ''a'', Plain '' x'', Span ''b'', Plain []]
   \<and> concat (map (sourceOf ''$$'') (scanBlock ''see $$ x $$ and $y$'')) = ''see $$ x $$ and $y$''
   \<and> shown (blockMarkup textBrowser) (Span '' x '')
       = ''<div class="math-block"><span class="katex">x</span></div>''
   \<and> shown (inlineMarkup textBrowser) (Span ''y'')
       = ''<span class="math-inline"><span class="katex">y</span></span>''
   \<and> renderMath textBrowser ''see $$ x $$ and $y$''
       = concat (map (shown (inlineMarkup textBrowser))
           (scanInline True (concat (map (shown (blockMarkup textBrowser))
              (scanBlock ''see $$ x $$ and $y$'')))))
   \<and> renderMath textBrowser ''see $$ x $$ and $y$''
       = ''see <div class="math-block"><span class="katex">x</span></div> and <span class="math-inline"><span class="katex">y</span></span>''
   \<and> Span '' x '' \<in> set (scanBlock ''see $$ x $$ and $y$'')
   \<and> katex_render (textBrowser\<lparr> katex_render := (\<lambda>e d. if d then None else Some e) \<rparr>)
         (trim '' x '') True = None
   \<and> renderMath (textBrowser\<lparr> katex_render := (\<lambda>e d. if d then None else Some e) \<rparr>)
         ''see $$ x $$ and $y$'' = ''see $$ x $$ and $y$''\<close>
proof -
  note t = renderMath_scans [OF refl, where env = textBrowser and html = "''see $$ x $$ and $y$''"]
  note b1 = t [THEN conjunct2, THEN conjunct2, THEN conjunct2, THEN conjunct1, rule_format]
  note b2 = t [THEN conjunct2, THEN conjunct2, THEN conjunct2, THEN conjunct2, THEN conjunct1,
      rule_format]
  note i = t [THEN conjunct2, THEN conjunct2, THEN conjunct2, THEN conjunct2, THEN conjunct2,
      THEN conjunct2, THEN conjunct2, THEN conjunct2, THEN conjunct2, THEN conjunct2,
      THEN conjunct2]
  note i1 = i [THEN conjunct1, rule_format]
  note i2 = i [THEN conjunct2, THEN conjunct1, rule_format]
  note i3 = i [THEN conjunct2, THEN conjunct2, THEN conjunct1, rule_format]
  note c4 = t [THEN conjunct2, THEN conjunct2, THEN conjunct2, THEN conjunct2, THEN conjunct2,
      THEN conjunct1, rule_format]
  note c10 = i [THEN conjunct2, THEN conjunct2, THEN conjunct2, THEN conjunct1, rule_format]
  note c11 = i [THEN conjunct2, THEN conjunct2, THEN conjunct2, THEN conjunct2, THEN conjunct2,
      THEN conjunct1, rule_format]
  have kx: \<open>katex_render textBrowser (trim '' x '') True = Some ''<span class="katex">x</span>''\<close>
    by code_simp
  have ky: \<open>katex_render textBrowser (trim ''y'') False = Some ''<span class="katex">y</span>''\<close>
    by code_simp
  from c4 [OF kx]
  have m4: \<open>shown (blockMarkup textBrowser) (Span '' x '')
       = ''<div class="math-block"><span class="katex">x</span></div>''\<close>
    by simp
  from c10 [OF ky]
  have m10: \<open>shown (inlineMarkup textBrowser) (Span ''y'')
       = ''<span class="math-inline"><span class="katex">y</span></span>''\<close>
    by simp
  have m11: "renderMath textBrowser ''see $$ x $$ and $y$''
       = concat (map (shown (inlineMarkup textBrowser))
           (scanInline True (concat (map (shown (blockMarkup textBrowser))
              (scanBlock ''see $$ x $$ and $y$'')))))"
    by (rule c11) (simp add: textBrowser_def)
  have "scanBlock ''$$a$$b$$c'' = Plain [] # Span ''a'' # scanBlock ''b$$c''"
    by (rule b1) (auto simp: Suc_le_eq)
  moreover have "scanBlock ''b$$c'' = [Plain ''b$$c'']"
  proof (rule b2)
    show "\<not> (\<exists>p e r. e \<noteq> [] \<and> ''b$$c'' = p @ ''$$'' @ e @ ''$$'' @ r)"
    proof
      assume "\<exists>p e r. e \<noteq> [] \<and> ''b$$c'' = p @ ''$$'' @ e @ ''$$'' @ r"
      then obtain p e r where e: "e \<noteq> []" and s: "''b$$c'' = p @ ''$$'' @ e @ ''$$'' @ r" by blast
      from s have "length ''b$$c'' = length (p @ ''$$'' @ e @ ''$$'' @ r)" by (rule arg_cong)
      with e show False by (cases e) simp_all
    qed
  qed
  ultimately have w1: "scanBlock ''$$a$$b$$c'' = [Plain [], Span ''a'', Plain ''b$$c'']" by simp
  have "scanInline True (dollar # ''a'' @ dollar # '' x$b$'')
      = Plain [] # Span ''a'' # scanInline False '' x$b$''"
    by (rule i1) simp
  moreover have "scanInline False '' x$b$'' = Plain ('' '' @ [CHR ''x'']) # Span ''b'' # scanInline False []"
    by (rule i2) simp
  moreover have "scanInline False [] = [Plain []]"
    by (rule i3) simp
  ultimately have w2: "scanInline True ''$a$ x$b$''
      = [Plain [], Span ''a'', Plain '' x'', Span ''b'', Plain []]" by simp
  have k: "katex_render (textBrowser\<lparr> katex_render := (\<lambda>e d. if d then None else Some e) \<rparr>)
         (trim '' x '') True = None"
    by simp
  have s: "concat (map (sourceOf ''$$'') (scanBlock ''see $$ x $$ and $y$'')) = ''see $$ x $$ and $y$''"
    by (rule t [THEN conjunct1])
  from renderMath_scans [OF refl,
      where env = "textBrowser\<lparr> katex_render := (\<lambda>e d. if d then None else Some e) \<rparr>"
        and html = "''see $$ x $$ and $y$''"] span_example k
  have f: "renderMath (textBrowser\<lparr> katex_render := (\<lambda>e d. if d then None else Some e) \<rparr>)
         ''see $$ x $$ and $y$'' = ''see $$ x $$ and $y$''"
    by blast
  from w1 w2 s m4 m10 m11 render_example span_example k f show ?thesis by (intro conjI)
qed

section \<open>Properties of the Inline/Block Classifier\<close>

lemma trimEnd_spaces:
  assumes "\<forall>c\<in>set ws. isSpace c" "x \<noteq> []" "\<not> isSpace (last x)"
  shows "trimEnd (x @ ws) = x"
proof -
  have "dropWhile isSpace (rev ws @ rev x) = dropWhile isSpace (rev x)"
    using assms(1) by (simp add: dropWhile_append)
  moreover have "dropWhile isSpace (rev x) = rev x"
    using assms(2,3) by (cases "rev x") (auto simp: last_rev hd_rev dest: arg_cong [where f = hd])
  ultimately show ?thesis by (simp add: trimEnd_def)
qed

lemma trimEnd_split: "\<exists>ws. s = trimEnd s @ ws \<and> (\<forall>c\<in>set ws. isSpace c)"
proof -
  have "rev s = takeWhile isSpace (rev s) @ dropWhile isSpace (rev s)" by simp
  then have "s = rev (dropWhile isSpace (rev s)) @ rev (takeWhile isSpace (rev s))"
    by (metis rev_append rev_rev_ident)
  moreover have "\<forall>c\<in>set (rev (takeWhile isSpace (rev s))). isSpace c"
    by (auto dest: set_takeWhileD)
  ultimately show ?thesis unfolding trimEnd_def by blast
qed

lemma unwrapParagraph_found:
  assumes "\<forall>c\<in>set ws. isSpace c"
  shows "unwrapParagraph (''<p>'' @ inner @ ''</p>'' @ ws) = Some inner"
proof -
  have "trimEnd ((''<p>'' @ inner @ ''</p>'') @ ws) = ''<p>'' @ inner @ ''</p>''"
    using assms by (intro trimEnd_spaces) (simp_all add: isSpace_def)
  then have t: "trimEnd (''<p>'' @ inner @ ''</p>'' @ ws) = ''<p>'' @ inner @ ''</p>''" by simp
  have s: "suffix ''</p>'' (''<p>'' @ inner @ ''</p>'')"
    by (metis suffix_appendI suffix_order.order_refl)
  show ?thesis unfolding unwrapParagraph_def t Let_def using s by simp
qed

lemma unwrapParagraph_source:
  assumes "unwrapParagraph h = Some inner"
  shows "\<exists>ws. h = ''<p>'' @ inner @ ''</p>'' @ ws \<and> (\<forall>c\<in>set ws. isSpace c)"
proof -
  define t where "t = trimEnd h"
  from assms have p: "prefix ''<p>'' t" and s: "suffix ''</p>'' t" and l: "7 \<le> length t"
    and i: "inner = take (length t - 7) (drop 3 t)"
    by (auto simp: unwrapParagraph_def Let_def t_def split: if_splits)
  from p obtain r where r: "t = ''<p>'' @ r" by (auto simp: prefix_def)
  from s obtain q where q: "t = q @ ''</p>''" by (auto simp: suffix_def)
  from r l have lr: "4 \<le> length r" by simp
  have rq: "r = take (length r - 4) r @ ''</p>''"
  proof -
    from r q have "suffix ''</p>'' (''<p>'' @ r)" by (metis suffixI)
    then have "suffix ''</p>'' r" using lr
      by (auto simp: suffix_def append_eq_append_conv2 Cons_eq_append_conv)
    then obtain r' where "r = r' @ ''</p>''" by (auto simp: suffix_def)
    then show ?thesis by simp
  qed
  have "inner = take (length r - 4) r" using i r by simp
  with rq r have "t = ''<p>'' @ inner @ ''</p>''" by simp
  with trimEnd_split [of h] show ?thesis unfolding t_def by auto
qed

lemma collapseNewlines_no_newline: "newline \<notin> set (collapseNewlines s)"
  by (induction s rule: collapseNewlines.induct) auto

lemma collapseNewlines_id: "newline \<notin> set s \<Longrightarrow> collapseNewlines s = s"
  by (induction s rule: collapseNewlines.induct) auto

lemma collapseNewlines_run_head:
  "b = [] \<or> hd b \<noteq> newline \<Longrightarrow>
     collapseNewlines (replicate (Suc n) newline @ b) = CHR '' '' # collapseNewlines b"
proof (induction n)
  case 0
  then show ?case by (cases b) auto
next
  case (Suc n)
  then show ?case by simp
qed

lemma collapseNewlines_append:
  "a = [] \<or> last a \<noteq> newline \<Longrightarrow>
     collapseNewlines (a @ newline # r) = collapseNewlines a @ collapseNewlines (newline # r)"
  by (induction a rule: collapseNewlines.induct) (auto split: if_splits)

lemma collapseNewlines_run:
  assumes "a = [] \<or> last a \<noteq> newline" "b = [] \<or> hd b \<noteq> newline"
  shows "collapseNewlines (a @ replicate (Suc n) newline @ b)
    = collapseNewlines a @ CHR '' '' # collapseNewlines b"
proof -
  have "collapseNewlines (a @ newline # (replicate n newline @ b))
      = collapseNewlines a @ collapseNewlines (newline # (replicate n newline @ b))"
    using assms(1) by (rule collapseNewlines_append)
  with collapseNewlines_run_head [OF assms(2), of n] show ?thesis by simp
qed

text \<open>
  What the classifier does with a replacement whose trimmed form does not include two
  newlines in a row. When the rendered HTML starts with \<open><p>\<close> and ends with \<open></p>\<close> and
  white space, the text between the two goes to the Math Expositor with each run of
  newline characters replaced by one space, so that it holds no newline character; when
  the rendered HTML is anything else, it goes to the Math Expositor as it is.
\<close>

lemma classifier_unwraps:
  assumes "\<not> str_includes (trim text) [newline, newline]"
  shows "(\<forall>inner ws. marked_parse env (trim text) = ''<p>'' @ inner @ ''</p>'' @ ws
            \<and> (\<forall>c\<in>set ws. isSpace c) \<longrightarrow>
          toInlineAwareHtml env text = renderMath env (collapseNewlines inner)
          \<and> newline \<notin> set (collapseNewlines inner))
    \<and> (\<not> (\<exists>inner ws. marked_parse env (trim text) = ''<p>'' @ inner @ ''</p>'' @ ws
            \<and> (\<forall>c\<in>set ws. isSpace c)) \<longrightarrow>
          toInlineAwareHtml env text = renderMath env (marked_parse env (trim text)))
    \<and> (\<forall>s. newline \<notin> set s \<longrightarrow> collapseNewlines s = s)
    \<and> (\<forall>a b n. (a = [] \<or> last a \<noteq> newline) \<and> (b = [] \<or> hd b \<noteq> newline) \<longrightarrow>
          collapseNewlines (a @ replicate (Suc n) newline @ b)
            = collapseNewlines a @ CHR '' '' # collapseNewlines b)"
proof -
  have "toInlineAwareHtml env text = renderMath env (collapseNewlines inner)
          \<and> newline \<notin> set (collapseNewlines inner)"
    if "marked_parse env (trim text) = ''<p>'' @ inner @ ''</p>'' @ ws" "\<forall>c\<in>set ws. isSpace c"
    for inner ws
    using assms that unwrapParagraph_found [OF that(2), of inner]
    by (simp add: toInlineAwareHtml_def Let_def collapseNewlines_no_newline)
  moreover have "toInlineAwareHtml env text = renderMath env (marked_parse env (trim text))"
    if n: "\<not> (\<exists>inner ws. marked_parse env (trim text) = ''<p>'' @ inner @ ''</p>'' @ ws
            \<and> (\<forall>c\<in>set ws. isSpace c))"
  proof -
    have "unwrapParagraph (marked_parse env (trim text)) = None"
    proof (cases "unwrapParagraph (marked_parse env (trim text))")
      case None
      then show ?thesis .
    next
      case (Some inner)
      from unwrapParagraph_source [OF this] n show ?thesis by blast
    qed
    then show ?thesis by (simp add: toInlineAwareHtml_def Let_def)
  qed
  moreover have "\<forall>s. newline \<notin> set s \<longrightarrow> collapseNewlines s = s"
    by (simp add: collapseNewlines_id)
  moreover have "\<forall>a b n. (a = [] \<or> last a \<noteq> newline) \<and> (b = [] \<or> hd b \<noteq> newline) \<longrightarrow>
          collapseNewlines (a @ replicate (Suc n) newline @ b)
            = collapseNewlines a @ CHR '' '' # collapseNewlines b"
    using collapseNewlines_run by blast
  ultimately show ?thesis by blast
qed

text \<open>One word, a heading, and a run of two newlines.\<close>

lemma classifier_unwraps_on_the_page:
  "\<not> str_includes (trim '' brown '') [newline, newline]
   \<and> marked_parse textBrowser (trim '' brown '') = ''<p>'' @ ''brown'' @ ''</p>'' @ [newline]
   \<and> toInlineAwareHtml textBrowser '' brown '' = renderMath textBrowser (collapseNewlines ''brown'')
   \<and> toInlineAwareHtml textBrowser '' brown '' = ''brown''
   \<and> toInlineAwareHtml textBrowser ''# Title'' = renderMath textBrowser (marked_parse textBrowser (trim ''# Title''))
   \<and> toInlineAwareHtml textBrowser ''# Title'' = ''<h1>Title</h1>'' @ [newline]
   \<and> collapseNewlines ([CHR ''a''] @ replicate (Suc 1) newline @ [CHR ''b'']) = ''a b''"
proof -
  have n: "\<not> str_includes (trim '' brown '') [newline, newline]" by code_simp
  have m: "marked_parse textBrowser (trim '' brown '') = ''<p>'' @ ''brown'' @ ''</p>'' @ [newline]"
    by code_simp
  have w: "\<forall>c\<in>set [newline]. isSpace c" by (simp add: isSpace_def)
  note t = classifier_unwraps [OF n, of textBrowser]
  from t [THEN conjunct1, rule_format, OF conjI, OF m w]
  have 1: "toInlineAwareHtml textBrowser '' brown '' = renderMath textBrowser (collapseNewlines ''brown'')"
    by (rule conjunct1)
  have 2: "toInlineAwareHtml textBrowser '' brown '' = ''brown''" by code_simp
  have 3: "toInlineAwareHtml textBrowser ''# Title''
      = renderMath textBrowser (marked_parse textBrowser (trim ''# Title''))"
    by code_simp
  have 5: "toInlineAwareHtml textBrowser ''# Title'' = ''<h1>Title</h1>'' @ [newline]"
    by code_simp
  from t [THEN conjunct2, THEN conjunct2, THEN conjunct2, rule_format,
      of "[CHR ''a'']" "[CHR ''b'']" 1]
  have "collapseNewlines ([CHR ''a''] @ replicate (Suc 1) newline @ [CHR ''b''])
      = collapseNewlines [CHR ''a''] @ CHR '' '' # collapseNewlines [CHR ''b'']"
    by simp
  then have 4: "collapseNewlines ([CHR ''a''] @ replicate (Suc 1) newline @ [CHR ''b'']) = ''a b''"
    by simp
  from n m 1 2 3 5 4 show ?thesis by (intro conjI)
qed

text \<open>
  Two lines with a line of one space between them: the text does not include two
  newlines in a row, and the renderer makes two paragraphs of it. The pattern of line
  185 takes all that is between the first \<open><p>\<close> and the last \<open></p>\<close>, and the fragment
  holds the end of one paragraph and the start of the next.
\<close>

lemma classifier_joins_two_paragraphs:
  "\<not> str_includes (trim [CHR ''a'', newline, CHR '' '', newline, CHR ''b'']) [newline, newline]
   \<and> toInlineAwareHtml
         (textBrowser\<lparr> marked_parse :=
            (\<lambda>t. ''<p>a</p>'' @ [newline] @ ''<p>b</p>'' @ [newline]) \<rparr>)
         [CHR ''a'', newline, CHR '' '', newline, CHR ''b''] = ''a</p> <p>b''"
  by code_simp

text \<open>
  Claim C3, at an input where the code departs from it. The replacement is \<open>a\<close>, a
  newline and \<open>b\<close>; it has no blank line. The renderer runs with \<open>breaks: true\<close> (line
  68), so the newline is a \<open><br>\<close> in the rendered paragraph. The classifier strips the
  wrapper and replaces the newline characters of what is inside (line 187); there is
  none left to replace, and the fragment it hands on holds the hard line break.
\<close>

theorem classifier_keeps_hard_break:
  "\<not> str_includes (trim [CHR ''a'', newline, CHR ''b'']) [newline, newline]
   \<and> marked_parse textBrowser (trim [CHR ''a'', newline, CHR ''b''])
       = ''<p>a<br>b</p>'' @ [newline]
   \<and> toInlineAwareHtml textBrowser [CHR ''a'', newline, CHR ''b''] = ''a<br>b''
   \<and> str_includes (toInlineAwareHtml textBrowser [CHR ''a'', newline, CHR ''b'']) ''<br>''"
  by code_simp

end
